theory Spec2Isabelle
  imports Complex_Main "HOL-Library.Sublist" "HOL-Library.Multiset"
begin

section \<open>JavaScript strings\<close>

text \<open>
  A JavaScript string is modelled as a \<^typ>\<open>string\<close>: a list of characters, each read as
  one code unit in the range U+0000 .. U+00FF. \<open>length\<close> is the source's \<open>.length\<close>.
  The definitions below are the built-in string methods the program calls, restricted
  to that range.
\<close>

definition code :: "char \<Rightarrow> nat" where
  "code c = of_char c"

definition in_range :: "char \<Rightarrow> char \<Rightarrow> char \<Rightarrow> bool" where
  \<comment> \<open>membership in a character-class range \<open>lo-hi\<close>\<close>
  "in_range lo hi c = (code lo \<le> code c \<and> code c \<le> code hi)"

definition is_space :: "char \<Rightarrow> bool" where
  \<comment> \<open>the class \<open>\s\<close>, which is also what \<open>trim\<close> strips: TAB, LF, VT, FF, CR, space, NBSP\<close>
  "is_space c = ((9 \<le> code c \<and> code c \<le> 13) \<or> code c = 32 \<or> code c = 160)"

definition trimStart :: "string \<Rightarrow> string" where
  "trimStart s = dropWhile is_space s"

definition trimEnd :: "string \<Rightarrow> string" where
  "trimEnd s = rev (dropWhile is_space (rev s))"

definition trim :: "string \<Rightarrow> string" where
  "trim s = trimEnd (trimStart s)"

definition lower_char :: "char \<Rightarrow> char" where
  \<comment> \<open>\<open>A-Z\<close> and the upper-case letters of U+00C0 .. U+00DE (not the sign U+00D7)\<close>
  "lower_char c =
     (if (65 \<le> code c \<and> code c \<le> 90) \<or> (192 \<le> code c \<and> code c \<le> 222 \<and> code c \<noteq> 215)
      then char_of (code c + 32) else c)"

definition toLowerCase :: "string \<Rightarrow> string" where
  "toLowerCase s = map lower_char s"

fun join :: "string \<Rightarrow> string list \<Rightarrow> string" where
  "join sep [] = []"
| "join sep [x] = x"
| "join sep (x # y # ys) = x @ sep @ join sep (y # ys)"

definition newline :: char where
  "newline = CHR 0x0A"

definition dquote :: char where
  "dquote = CHR 0x22"

definition comma :: char where
  "comma = CHR '',''"

fun split_lines :: "string \<Rightarrow> string list" where
  \<comment> \<open>\<open>s.split('\n')\<close>: always at least one piece\<close>
  "split_lines [] = [[]]"
| "split_lines (c # cs) =
     (if c = newline then [] # split_lines cs
      else (case split_lines cs of [] \<Rightarrow> [[c]] | l # ls \<Rightarrow> (c # l) # ls))"

fun digit_char :: "nat \<Rightarrow> char" where
  "digit_char n = char_of (48 + n)"

fun string_of_nat :: "nat \<Rightarrow> string" where
  \<comment> \<open>a number inside a template literal: its decimal digits\<close>
  "string_of_nat n =
     (if n < 10 then [digit_char n] else string_of_nat (n div 10) @ [digit_char (n mod 10)])"

declare string_of_nat.simps [simp del]

section \<open>Regular expressions\<close>

text \<open>
  The patterns the program tests are anchored at both ends (\<open>^...$\<close>) and built from
  character classes, concatenation and repetition. \<open>rx\<close> is their syntax and
  \<open>rx_test\<close> decides whether the whole string matches, by derivatives.
\<close>

datatype rx = Fail | Eps | Atom "char \<Rightarrow> bool" | Alt rx rx | Seq rx rx | Star rx

definition OneOrMore :: "rx \<Rightarrow> rx" where
  "OneOrMore r = Seq r (Star r)"

fun Exactly :: "rx \<Rightarrow> nat \<Rightarrow> rx" where
  "Exactly r 0 = Eps"
| "Exactly r (Suc n) = Seq r (Exactly r n)"

fun AtMost :: "rx \<Rightarrow> nat \<Rightarrow> rx" where
  "AtMost r 0 = Eps"
| "AtMost r (Suc n) = Alt Eps (Seq r (AtMost r n))"

definition Between :: "rx \<Rightarrow> nat \<Rightarrow> nat \<Rightarrow> rx" where
  \<comment> \<open>the bounded repetition \<open>r{m,n}\<close>\<close>
  "Between r m n = Seq (Exactly r m) (AtMost r (n - m))"

fun nullable :: "rx \<Rightarrow> bool" where
  "nullable Fail = False"
| "nullable Eps = True"
| "nullable (Atom p) = False"
| "nullable (Alt r s) = (nullable r \<or> nullable s)"
| "nullable (Seq r s) = (nullable r \<and> nullable s)"
| "nullable (Star r) = True"

fun deriv :: "char \<Rightarrow> rx \<Rightarrow> rx" where
  "deriv c Fail = Fail"
| "deriv c Eps = Fail"
| "deriv c (Atom p) = (if p c then Eps else Fail)"
| "deriv c (Alt r s) = Alt (deriv c r) (deriv c s)"
| "deriv c (Seq r s) =
     (if nullable r then Alt (Seq (deriv c r) s) (deriv c s) else Seq (deriv c r) s)"
| "deriv c (Star r) = Seq (deriv c r) (Star r)"

fun rx_test :: "rx \<Rightarrow> string \<Rightarrow> bool" where
  "rx_test r [] = nullable r"
| "rx_test r (c # cs) = rx_test (deriv c r) cs"

text \<open>The words a pattern matches, used to state what \<open>rx_test\<close> decides.\<close>

inductive matches :: "rx \<Rightarrow> string \<Rightarrow> bool" where
  m_Eps: "matches Eps []"
| m_Atom: "p c \<Longrightarrow> matches (Atom p) [c]"
| m_AltL: "matches r w \<Longrightarrow> matches (Alt r s) w"
| m_AltR: "matches s w \<Longrightarrow> matches (Alt r s) w"
| m_Seq: "matches r u \<Longrightarrow> matches s v \<Longrightarrow> matches (Seq r s) (u @ v)"
| m_StarNil: "matches (Star r) []"
| m_StarStep: "matches r u \<Longrightarrow> matches (Star r) v \<Longrightarrow> matches (Star r) (u @ v)"

section \<open>Data validation (validateWalletAddress, validateEmail, validateParticipant)\<close>

datatype jsval = JUndefined | JNull | JBool bool | JNum int | JStr string | JObject

text \<open>
  A check returns \<open>{valid: true}\<close>, \<open>{valid: true, missing: true}\<close> or
  \<open>{valid: false, error}\<close>.
\<close>

datatype validation = Valid | ValidMissing | Invalid string

fun is_valid :: "validation \<Rightarrow> bool" where
  "is_valid (Invalid e) = False"
| "is_valid v = True"

definition base58_class :: "char \<Rightarrow> bool" where
  \<comment> \<open>\<open>[1-9A-HJ-NP-Za-km-z]\<close>\<close>
  "base58_class c =
     (in_range CHR ''1'' CHR ''9'' c \<or> in_range CHR ''A'' CHR ''H'' c \<or>
      in_range CHR ''J'' CHR ''N'' c \<or> in_range CHR ''P'' CHR ''Z'' c \<or>
      in_range CHR ''a'' CHR ''k'' c \<or> in_range CHR ''m'' CHR ''z'' c)"

definition base58Regex :: rx where
  \<comment> \<open>\<open>/^[1-9A-HJ-NP-Za-km-z]+$/\<close>\<close>
  "base58Regex = OneOrMore (Atom base58_class)"

definition validateWalletAddress :: "jsval \<Rightarrow> validation" where
  "validateWalletAddress address =
     (case address of
        JStr s \<Rightarrow>
          if s = [] then Invalid ''Missing or invalid wallet address''
          else if trim s \<noteq> s then Invalid ''Wallet address has leading/trailing whitespace''
          else if length s < 32 \<or> length s > 44
            then Invalid (''Invalid length: '' @ string_of_nat (length s) @ '' chars (expected 32-44)'')
          else if \<not> rx_test base58Regex s
            then Invalid ''Contains invalid characters (not valid base58)''
          else Valid
      | _ \<Rightarrow> Invalid ''Missing or invalid wallet address'')"

definition not_space_at :: "char \<Rightarrow> bool" where
  \<comment> \<open>\<open>[^\s@]\<close>\<close>
  "not_space_at c = (\<not> is_space c \<and> c \<noteq> CHR ''@'')"

definition emailRegex :: rx where
  \<comment> \<open>\<open>/^[^\s@]+@[^\s@]+\.[^\s@]+$/\<close>\<close>
  "emailRegex =
     Seq (OneOrMore (Atom not_space_at))
       (Seq (Atom (\<lambda>c. c = CHR ''@''))
         (Seq (OneOrMore (Atom not_space_at))
           (Seq (Atom (\<lambda>c. c = CHR ''.'')) (OneOrMore (Atom not_space_at)))))"

definition validateEmail :: "string option \<Rightarrow> validation" where
  "validateEmail email =
     (case email of
        None \<Rightarrow> ValidMissing
      | Some s \<Rightarrow>
          if s = [] \<or> trim s = [] then ValidMissing
          else if \<not> rx_test emailRegex (trim s) then Invalid ''Invalid email format''
          else Valid)"

definition base58_alphabet :: string where
  \<comment> \<open>the alphabet as the source's comment spells it out: no \<open>0\<close>, \<open>O\<close>, \<open>I\<close>, \<open>l\<close>\<close>
  "base58_alphabet = ''123456789ABCDEFGHJKLMNPQRSTUVWXYZabcdefghijkmnopqrstuvwxyz''"

definition surrounding_space :: "string \<Rightarrow> bool" where
  \<comment> \<open>the string begins or ends with a whitespace character\<close>
  "surrounding_space s = (s \<noteq> [] \<and> (is_space (hd s) \<or> is_space (last s)))"

text \<open>
  A participant object of \<open>participants.json\<close>. Each field is a text or absent
  (\<open>None\<close> stands for \<open>undefined\<close> and \<open>null\<close>).
\<close>

record participant =
  name :: "string option"
  wallet :: "string option"
  email :: "string option"
  campus :: "string option"

record participant_check =
  check_valid :: bool
  check_errors :: "string list"
  check_warnings :: "string list"

definition row_prefix :: "nat \<Rightarrow> string" where
  "row_prefix rowNum = ''Row '' @ string_of_nat rowNum @ '': ''"

definition wallet_errors :: "participant \<Rightarrow> nat \<Rightarrow> string list" where
  \<comment> \<open>the wallet block of \<open>validateParticipant\<close>: what it pushes to \<open>errors\<close>\<close>
  "wallet_errors p rowNum =
     (case wallet p of
        None \<Rightarrow> [row_prefix rowNum @ ''Missing wallet address'']
      | Some w \<Rightarrow>
          if w = [] then [row_prefix rowNum @ ''Missing wallet address'']
          else (case validateWalletAddress (JStr w) of
                  Invalid e \<Rightarrow>
                    [row_prefix rowNum @ e @ '' (wallet: '' @ [dquote] @ w @ [dquote] @ '')'']
                | _ \<Rightarrow> []))"

definition email_warnings :: "participant \<Rightarrow> nat \<Rightarrow> string list" where
  \<comment> \<open>the email block of \<open>validateParticipant\<close>: what it pushes to \<open>warnings\<close>\<close>
  "email_warnings p rowNum =
     (case email p of
        None \<Rightarrow> [row_prefix rowNum @ ''No email address - will not receive notification'']
      | Some e \<Rightarrow>
          if e = [] then [row_prefix rowNum @ ''No email address - will not receive notification'']
          else (case validateEmail (Some e) of
                  Invalid msg \<Rightarrow>
                    [row_prefix rowNum @ msg @ '' (email: '' @ [dquote] @ e @ [dquote]
                       @ '') - will skip email notification'']
                | _ \<Rightarrow> []))"

definition name_missing :: "participant \<Rightarrow> bool" where
  \<comment> \<open>\<open>!participant.name || participant.name.trim() === ''\<close>\<close>
  "name_missing p = (case name p of None \<Rightarrow> True | Some n \<Rightarrow> n = [] \<or> trim n = [])"

definition name_warnings :: "participant \<Rightarrow> nat \<Rightarrow> string list" where
  \<comment> \<open>the name block; \<open>wallet?.slice(0, 8)\<close> of an absent wallet prints as \<open>undefined\<close>\<close>
  "name_warnings p rowNum =
     (if name_missing p then
        [row_prefix rowNum @ ''No name provided (wallet: ''
           @ (case wallet p of None \<Rightarrow> ''undefined'' | Some w \<Rightarrow> take 8 w) @ ''...)'']
      else [])"

definition validateParticipant :: "participant \<Rightarrow> nat \<Rightarrow> participant_check" where
  "validateParticipant p index =
     (let rowNum = index + 1;
          es = wallet_errors p rowNum;
          ws = email_warnings p rowNum @ name_warnings p rowNum
      in \<lparr>check_valid = (es = []), check_errors = es, check_warnings = ws\<rparr>)"

subsection \<open>findDuplicates, validateAllParticipants, removeDuplicates\<close>

record duplicate =
  dup_wallet :: string
  indices :: "nat list"
  names :: "string list"

definition wallet_key :: "string \<Rightarrow> string" where
  \<comment> \<open>\<open>p.wallet.trim().toLowerCase()\<close>\<close>
  "wallet_key w = toLowerCase (trim w)"

definition has_wallet :: "participant \<Rightarrow> bool" where
  \<comment> \<open>\<open>p.wallet\<close> as a condition: present and not the empty string\<close>
  "has_wallet p = (case wallet p of None \<Rightarrow> False | Some w \<Rightarrow> w \<noteq> [])"

definition key_of :: "participant \<Rightarrow> string" where
  "key_of p = (case wallet p of None \<Rightarrow> [] | Some w \<Rightarrow> wallet_key w)"

fun add_occurrence :: "string \<Rightarrow> nat \<Rightarrow> string \<Rightarrow> (string \<times> duplicate) list \<Rightarrow> (string \<times> duplicate) list" where
  \<comment> \<open>push the row number and the name on the group of key \<open>k\<close>\<close>
  "add_occurrence k i n [] = []"
| "add_occurrence k i n ((k', d) # rest) =
     (if k' = k then (k', d\<lparr>indices := indices d @ [i], names := names d @ [n]\<rparr>) # rest
      else (k', d) # add_occurrence k i n rest)"

fun group_wallets :: "(string \<times> duplicate) list \<Rightarrow> nat \<Rightarrow> participant list \<Rightarrow> (string \<times> duplicate) list" where
  \<comment> \<open>the \<open>forEach\<close> of \<open>findDuplicates\<close>; the map keeps its keys in insertion order\<close>
  "group_wallets walletMap index [] = walletMap"
| "group_wallets walletMap index (p # ps) =
     (case wallet p of
        None \<Rightarrow> group_wallets walletMap (index + 1) ps
      | Some w \<Rightarrow>
          if w = [] then group_wallets walletMap (index + 1) ps
          else
            (let k = wallet_key w;
                 m1 = (if map_of walletMap k = None
                       then walletMap @ [(k, \<lparr>dup_wallet = w, indices = [], names = []\<rparr>)]
                       else walletMap);
                 n = (case name p of None \<Rightarrow> ''Unknown'' | Some x \<Rightarrow> if x = [] then ''Unknown'' else x)
             in group_wallets (add_occurrence k (index + 1) n m1) (index + 1) ps))"

definition findDuplicates :: "participant list \<Rightarrow> duplicate list" where
  "findDuplicates participants =
     map snd (filter (\<lambda>(k, d). length (indices d) > 1) (group_wallets [] 0 participants))"

record report =
  total :: nat
  valid :: nat
  invalid :: nat
  errors :: "string list"
  warnings :: "string list"
  duplicates :: "duplicate list"
  withEmail :: nat
  withoutEmail :: nat

definition has_email :: "participant \<Rightarrow> bool" where
  \<comment> \<open>\<open>participant.email && participant.email.trim() !== ''\<close>\<close>
  "has_email p = (case email p of None \<Rightarrow> False | Some e \<Rightarrow> e \<noteq> [] \<and> trim e \<noteq> [])"

fun validate_each :: "report \<Rightarrow> nat \<Rightarrow> participant list \<Rightarrow> report" where
  \<comment> \<open>the \<open>forEach\<close> of \<open>validateAllParticipants\<close>\<close>
  "validate_each rep index [] = rep"
| "validate_each rep index (p # ps) =
     (let result = validateParticipant p index;
          rep1 = (if check_valid result then rep\<lparr>valid := valid rep + 1\<rparr>
                  else rep\<lparr>invalid := invalid rep + 1\<rparr>);
          rep2 = rep1\<lparr>errors := errors rep1 @ check_errors result,
                      warnings := warnings rep1 @ check_warnings result\<rparr>;
          rep3 = (if has_email p then rep2\<lparr>withEmail := withEmail rep2 + 1\<rparr>
                  else rep2\<lparr>withoutEmail := withoutEmail rep2 + 1\<rparr>)
      in validate_each rep3 (index + 1) ps)"

definition validateAllParticipants :: "participant list \<Rightarrow> report" where
  \<comment> \<open>the \<open>summary\<close> object repeats the counts of the report and is left out\<close>
  "validateAllParticipants participants =
     (let rep = \<lparr>total = length participants, valid = 0, invalid = 0, errors = [],
                  warnings = [], duplicates = [], withEmail = 0, withoutEmail = 0\<rparr>
      in if participants = []
         then rep\<lparr>errors := [''No participants found or invalid data format'']\<rparr>
         else (validate_each rep 0 participants)\<lparr>duplicates := findDuplicates participants\<rparr>)"

fun remove_seen :: "string set \<Rightarrow> participant list \<Rightarrow> participant list" where
  \<comment> \<open>the \<open>filter\<close> of \<open>removeDuplicates\<close>, with the set \<open>seen\<close> passed along\<close>
  "remove_seen seen [] = []"
| "remove_seen seen (p # ps) =
     (case wallet p of
        None \<Rightarrow> remove_seen seen ps
      | Some w \<Rightarrow>
          if w = [] then remove_seen seen ps
          else if wallet_key w \<in> seen then remove_seen seen ps
          else p # remove_seen (insert (wallet_key w) seen) ps)"

definition removeDuplicates :: "participant list \<Rightarrow> participant list" where
  "removeDuplicates participants = remove_seen {} participants"

definition cleanParticipantData :: "participant list \<Rightarrow> participant list" where
  \<comment> \<open>\<open>field?.trim() || ''\<close> on the four text fields\<close>
  "cleanParticipantData participants =
     map (\<lambda>p. p\<lparr>wallet := Some (case wallet p of None \<Rightarrow> [] | Some x \<Rightarrow> trim x),
                 email := Some (case email p of None \<Rightarrow> [] | Some x \<Rightarrow> trim x),
                 name := Some (case name p of None \<Rightarrow> [] | Some x \<Rightarrow> trim x),
                 campus := Some (case campus p of None \<Rightarrow> [] | Some x \<Rightarrow> trim x)\<rparr>)
       participants"

section \<open>Data consolidation (consolidate-data.js)\<close>

subsection \<open>parseCSV, parseCSVLine, toCSV\<close>

text \<open>
  A row is an object with text properties: a map from keys to values. Assigning the
  key \<open>__proto__\<close> a text on a plain object stores nothing.
\<close>

type_synonym row = "string \<rightharpoonup> string"

definition set_prop :: "row \<Rightarrow> string \<Rightarrow> string \<Rightarrow> row" where
  "set_prop r k v = (if k = ''__proto__'' then r else r(k \<mapsto> v))"

fun csv_scan :: "string list \<Rightarrow> string \<Rightarrow> bool \<Rightarrow> string \<Rightarrow> string list" where
  \<comment> \<open>the \<open>for\<close> loop of \<open>parseCSVLine\<close> over the remaining characters, then the last push\<close>
  "csv_scan result current inQuotes [] = result @ [current]"
| "csv_scan result current inQuotes (c # cs) =
     (if c = dquote then csv_scan result current (\<not> inQuotes) cs
      else if c = comma \<and> \<not> inQuotes then csv_scan (result @ [current]) [] inQuotes cs
      else csv_scan result (current @ [c]) inQuotes cs)"

definition strip_quotes :: "string \<Rightarrow> string" where
  \<comment> \<open>\<open>s.replace(/^"|"$/g, '')\<close>: a quote at the start and a quote at the end\<close>
  "strip_quotes s =
     (let s1 = (case s of [] \<Rightarrow> [] | c # cs \<Rightarrow> if c = dquote then cs else s)
      in if s1 \<noteq> [] \<and> last s1 = dquote then butlast s1 else s1)"

definition parseCSVLine :: "string \<Rightarrow> string list" where
  "parseCSVLine line = map (\<lambda>s. trim (strip_quotes s)) (csv_scan [] [] False line)"

definition value_at :: "string list \<Rightarrow> nat \<Rightarrow> string" where
  \<comment> \<open>\<open>values[index]?.trim() || ''\<close>\<close>
  "value_at vs i = (if i < length vs then trim (vs ! i) else [])"

fun fill_row :: "row \<Rightarrow> string list \<Rightarrow> nat \<Rightarrow> string list \<Rightarrow> row" where
  \<comment> \<open>\<open>header.forEach((key, index) => ...)\<close> from position \<open>index\<close> on\<close>
  "fill_row r vs index [] = r"
| "fill_row r vs index (key # keys) =
     fill_row (set_prop r (trim key) (value_at vs index)) vs (index + 1) keys"

definition parseCSV :: "string \<Rightarrow> row list" where
  "parseCSV content =
     (let lines = split_lines (trim content)
      in if length lines < 2 then []
         else (let header = parseCSVLine (hd lines)
               in map (\<lambda>vs. fill_row Map.empty vs 0 header)
                    (filter (\<lambda>vs. length vs \<noteq> 0) (map parseCSVLine (tl lines)))))"

definition prototype_functions :: "string list" where
  \<comment> \<open>the function members every plain object inherits from \<open>Object.prototype\<close>\<close>
  "prototype_functions =
     [''__defineGetter__'', ''__defineSetter__'', ''hasOwnProperty'', ''__lookupGetter__'',
      ''__lookupSetter__'', ''isPrototypeOf'', ''propertyIsEnumerable'', ''toString'',
      ''valueOf'', ''toLocaleString'']"

definition inherited :: "string \<Rightarrow> string option" where
  \<comment> \<open>\<open>String(Object.prototype[col])\<close> as Node prints it, for the names every plain
      object inherits: what \<open>row[col]\<close> reads when \<open>row\<close> has no property \<open>col\<close> of its own\<close>
  "inherited col =
     (if col = ''constructor'' then Some ''function Object() { [native code] }''
      else if col = ''__proto__'' then Some ''[object Object]''
      else if col \<in> set prototype_functions then Some (''function '' @ col @ ''() { [native code] }'')
      else None)"

definition field :: "row \<Rightarrow> string \<Rightarrow> string" where
  \<comment> \<open>\<open>String(row[col] ?? '')\<close> for a plain object whose own properties are texts: the
      row's own value, else the inherited member of that name, else the empty string\<close>
  "field r col =
     (case r col of
        Some v \<Rightarrow> v
      | None \<Rightarrow> (case inherited col of Some t \<Rightarrow> t | None \<Rightarrow> []))"

definition csv_cell :: "string \<Rightarrow> string" where
  \<comment> \<open>a value with a comma or a quote is wrapped in quotes, its quotes doubled\<close>
  "csv_cell val =
     (if comma \<in> set val \<or> dquote \<in> set val
      then [dquote] @ concat (map (\<lambda>c. if c = dquote then [dquote, dquote] else [c]) val) @ [dquote]
      else val)"

definition toCSV :: "row list \<Rightarrow> string list \<Rightarrow> string" where
  "toCSV data columns =
     (if length data = 0 then []
      else (let header = join [comma] columns;
                rows = map (\<lambda>r. join [comma] (map (\<lambda>col. csv_cell (field r col)) columns)) data
            in join [newline] (header # rows)))"

subsection \<open>similarity and normalizeName\<close>

text \<open>
  Row \<open>i\<close> of the distance matrix starts as \<open>[i]\<close> and the inner loop assigns
  \<open>matrix[i][j]\<close> for \<open>j = 1, 2, ...\<close> in turn, each one position past the end of the row
  so far. \<open>next_cells\<close> is that inner loop: it walks the second string along the previous
  row (\<open>diag\<close> is \<open>matrix[i-1][j-1]\<close>, \<open>up\<close> is \<open>matrix[i-1][j]\<close>) with \<open>left\<close> being
  \<open>matrix[i][j-1]\<close>.
\<close>

fun next_cells :: "char \<Rightarrow> string \<Rightarrow> nat list \<Rightarrow> nat \<Rightarrow> nat list" where
  "next_cells a (b # bs) (diag # up # prev) left =
     (let cost = (if a = b then 0 else 1);
          v = min (min (up + 1) (left + 1)) (diag + cost)
      in v # next_cells a bs (up # prev) v)"
| "next_cells a bs prev left = []"

fun fill_matrix :: "string \<Rightarrow> string \<Rightarrow> nat \<Rightarrow> nat list \<Rightarrow> nat list" where
  \<comment> \<open>the outer loop from row \<open>i\<close> on, given row \<open>i - 1\<close>; the result is the last row\<close>
  "fill_matrix [] s2 i prev = prev"
| "fill_matrix (a # s1) s2 i prev = fill_matrix s1 s2 (i + 1) (i # next_cells a s2 prev i)"

definition distance :: "string \<Rightarrow> string \<Rightarrow> nat" where
  \<comment> \<open>\<open>matrix[s1.length][s2.length]\<close>; row 0 is \<open>[0, 1, ..., s2.length]\<close>\<close>
  "distance s1 s2 = last (fill_matrix s1 s2 1 [0..<length s2 + 1])"

text \<open>
  The score is a quotient of two lengths. It is kept as an exact rational; the
  thresholds \<open>0.85\<close> and \<open>0.7\<close> are the rationals \<open>85/100\<close> and \<open>7/10\<close>. The program
  computes in double precision, where the comparisons of a score with a threshold or
  with another score come out as on the exact quotients (the difference of two distinct
  scores is far above the rounding error, and \<open>1 - 3/20\<close> and \<open>1 - 3/10\<close> round to
  the doubles \<open>0.85\<close> and \<open>0.7\<close>).
\<close>

definition similarity :: "string \<Rightarrow> string \<Rightarrow> rat" where
  "similarity str1 str2 =
     (let s1 = trim (toLowerCase str1);
          s2 = trim (toLowerCase str2)
      in if s1 = s2 then 1
         else if length s1 = 0 \<or> length s2 = 0 then 0
         else 1 - of_nat (distance s1 s2) / of_nat (max (length s1) (length s2)))"

function collapse_spaces :: "string \<Rightarrow> string" where
  \<comment> \<open>\<open>replace(/\s+/g, ' ')\<close>: each maximal run of whitespace becomes one space\<close>
  "collapse_spaces [] = []"
| "collapse_spaces (c # cs) =
     (if is_space c then CHR '' '' # collapse_spaces (dropWhile is_space cs)
      else c # collapse_spaces cs)"
  by pat_completeness auto
termination
  by (relation "measure length") (auto simp: length_dropWhile_le less_Suc_eq_le)

definition alpha_or_space :: "char \<Rightarrow> bool" where
  \<comment> \<open>the characters \<open>replace(/[^a-z\s]/g, '')\<close> keeps\<close>
  "alpha_or_space c = (in_range CHR ''a'' CHR ''z'' c \<or> is_space c)"

definition normalizeName :: "string option \<Rightarrow> string" where
  "normalizeName nm =
     (case nm of
        None \<Rightarrow> []
      | Some s \<Rightarrow>
          if s = [] then []
          else filter alpha_or_space (collapse_spaces (trim (toLowerCase s))))"

subsection \<open>Loading the wallet table and the registrations\<close>

record wallet_entry =
  w_name :: string
  w_normalizedName :: string
  w_wallet :: string
  w_programId :: string
  w_github :: string

record registration =
  r_name :: string
  r_normalizedName :: string
  r_email :: string
  r_campuses :: "string list"
  r_daysAttended :: nat
  r_attended :: bool

fun first_of :: "row \<Rightarrow> string list \<Rightarrow> string \<Rightarrow> string" where
  \<comment> \<open>\<open>row[k1] || row[k2] || ... || dflt\<close>\<close>
  "first_of r [] dflt = dflt"
| "first_of r (k # ks) dflt =
     (case r k of None \<Rightarrow> first_of r ks dflt
      | Some v \<Rightarrow> if v = [] then first_of r ks dflt else v)"

fun load_wallets ::
  "wallet_entry list \<times> (string \<times> wallet_entry) list \<Rightarrow> row list
     \<Rightarrow> wallet_entry list \<times> (string \<times> wallet_entry) list" where
  \<comment> \<open>step 1: \<open>walletData\<close> and the map \<open>walletsByName\<close>, its keys in insertion order\<close>
  "load_wallets (walletData, walletsByName) [] = (walletData, walletsByName)"
| "load_wallets (walletData, walletsByName) (r # rows) =
     (let nm = first_of r [''Full Name'', ''name'', ''Name''] [];
          wa = first_of r [''Devnet Wallet Address'', ''Devnet wallet address'', ''wallet'', ''Wallet''] [];
          programId = first_of r [''Program ID'', ''program_id''] [];
          github = first_of r [''Github profile'', ''github'', ''GitHub''] []
      in if nm = [] \<or> wa = [] \<or> toLowerCase wa = ''nil''
         then load_wallets (walletData, walletsByName) rows
         else (let normalizedName = normalizeName (Some nm);
                   entry = \<lparr>w_name = trim nm, w_normalizedName = normalizedName,
                            w_wallet = trim wa, w_programId = trim programId,
                            w_github = trim github\<rparr>
               in load_wallets
                    (walletData @ [entry],
                     if map_of walletsByName normalizedName = None
                     then walletsByName @ [(normalizedName, entry)] else walletsByName)
                    rows))"

fun update_registration :: "string \<Rightarrow> string \<Rightarrow> (string \<times> registration) list \<Rightarrow> (string \<times> registration) list" where
  \<comment> \<open>the existing entry of an email gets the campus, if new, and one more day\<close>
  "update_registration e c [] = []"
| "update_registration e c ((k, g) # rest) =
     (if k = e
      then (k, g\<lparr>r_campuses := (if c \<in> set (r_campuses g) then r_campuses g else r_campuses g @ [c]),
                 r_daysAttended := r_daysAttended g + 1\<rparr>) # rest
      else (k, g) # update_registration e c rest)"

fun load_rows :: "string \<Rightarrow> (string \<times> registration) list \<Rightarrow> row list \<Rightarrow> (string \<times> registration) list" where
  \<comment> \<open>step 2, the rows of one registration file whose campus label is \<open>c\<close>\<close>
  "load_rows c regs [] = regs"
| "load_rows c regs (r # rows) =
     (let e = toLowerCase (trim (first_of r [''email'', ''Email''] []));
          firstName = first_of r [''first_name'', ''First Name''] [];
          lastName = first_of r [''last_name'', ''Last Name''] [];
          fullName = first_of r [''name'', ''Name''] (trim (firstName @ '' '' @ lastName));
          checkedIn = first_of r [''checked_in_at'', ''Checked In''] [];
          status = first_of r [''approval_status'', ''Status''] []
      in if e = [] then load_rows c regs rows
         else if map_of regs e \<noteq> None then load_rows c (update_registration e c regs) rows
         else load_rows c
                (regs @ [(e, \<lparr>r_name = trim fullName, r_normalizedName = normalizeName (Some fullName),
                               r_email = e, r_campuses = [c], r_daysAttended = 1,
                               r_attended = (checkedIn \<noteq> [] \<or> status = ''approved'')\<rparr>)])
                rows)"

fun load_registrations :: "(string \<times> registration) list \<Rightarrow> (string \<times> row list) list \<Rightarrow> (string \<times> registration) list" where
  \<comment> \<open>step 2 over the files, each given as its campus label and its parsed rows\<close>
  "load_registrations regs [] = regs"
| "load_registrations regs ((c, rows) # files) = load_registrations (load_rows c regs rows) files"

subsection \<open>Matching registrations to wallets\<close>

record matched_entry =
  m_name :: string
  m_wallet :: string
  m_email :: string
  m_campus :: "string option"
  m_campuses :: string
  m_daysAttended :: nat
  m_github :: string
  m_matchMethod :: string
  m_confidence :: rat

record review_entry =
  lumaName :: string
  lumaEmail :: string
  suggestedMatch :: string
  suggestedWallet :: string
  rv_confidence :: rat
  rv_campuses :: string

record missing_entry =
  ms_name :: string
  ms_email :: string
  ms_campuses :: string
  ms_daysAttended :: nat

record match_state =
  matched :: "matched_entry list"
  reviewNeeded :: "review_entry list"
  missingWallets :: "missing_entry list"
  usedWallets :: "string set"

definition FUZZY_THRESHOLD :: rat where
  "FUZZY_THRESHOLD = 85 / 100"

fun best_scan ::
  "string set \<Rightarrow> string \<Rightarrow> wallet_entry option \<times> rat \<Rightarrow> (string \<times> wallet_entry) list
     \<Rightarrow> wallet_entry option \<times> rat" where
  \<comment> \<open>the fuzzy loop over \<open>walletsByName\<close>, carrying \<open>(bestMatch, bestScore)\<close>\<close>
  "best_scan used n (bestMatch, bestScore) [] = (bestMatch, bestScore)"
| "best_scan used n (bestMatch, bestScore) ((normalizedName, entry) # rest) =
     (if w_wallet entry \<in> used then best_scan used n (bestMatch, bestScore) rest
      else (let score = similarity n normalizedName
            in if score > bestScore then best_scan used n (Some entry, score) rest
               else best_scan used n (bestMatch, bestScore) rest))"

definition push_matched ::
  "match_state \<Rightarrow> string \<Rightarrow> registration \<Rightarrow> wallet_entry \<Rightarrow> string \<Rightarrow> rat \<Rightarrow> match_state" where
  \<comment> \<open>the \<open>if (walletEntry)\<close> branch; the confidence is kept as a number, not formatted\<close>
  "push_matched st e reg walletEntry matchMethod matchConfidence =
     st\<lparr>matched := matched st @
           [\<lparr>m_name = (if r_name reg = [] then w_name walletEntry else r_name reg),
             m_wallet = w_wallet walletEntry,
             m_email = e,
             m_campus = (case r_campuses reg of [] \<Rightarrow> None | c # cs \<Rightarrow> Some c),
             m_campuses = join '', '' (r_campuses reg),
             m_daysAttended = r_daysAttended reg,
             m_github = w_github walletEntry,
             m_matchMethod = matchMethod,
             m_confidence = matchConfidence\<rparr>],
        usedWallets := insert (w_wallet walletEntry) (usedWallets st)\<rparr>"

definition push_missing :: "match_state \<Rightarrow> string \<Rightarrow> registration \<Rightarrow> match_state" where
  "push_missing st e reg =
     st\<lparr>missingWallets := missingWallets st @
           [\<lparr>ms_name = r_name reg, ms_email = e, ms_campuses = join '', '' (r_campuses reg),
             ms_daysAttended = r_daysAttended reg\<rparr>]\<rparr>"

definition push_review :: "match_state \<Rightarrow> string \<Rightarrow> registration \<Rightarrow> wallet_entry \<Rightarrow> rat \<Rightarrow> match_state" where
  "push_review st e reg bestMatch bestScore =
     st\<lparr>reviewNeeded := reviewNeeded st @
           [\<lparr>lumaName = r_name reg, lumaEmail = e, suggestedMatch = w_name bestMatch,
             suggestedWallet = w_wallet bestMatch, rv_confidence = bestScore,
             rv_campuses = join '', '' (r_campuses reg)\<rparr>]\<rparr>"

definition match_step :: "(string \<times> wallet_entry) list \<Rightarrow> string \<times> registration \<Rightarrow> match_state \<Rightarrow> match_state" where
  \<comment> \<open>one turn of the loop over \<open>registrationsByEmail\<close>\<close>
  "match_step walletsByName er st =
     (let e = fst er; reg = snd er
      in case map_of walletsByName (r_normalizedName reg) of
           Some walletEntry \<Rightarrow> push_matched st e reg walletEntry ''exact'' 1
         | None \<Rightarrow>
             (case best_scan (usedWallets st) (r_normalizedName reg) (None, 0) walletsByName of
                (Some bestMatch, bestScore) \<Rightarrow>
                  if bestScore \<ge> FUZZY_THRESHOLD
                    then push_matched st e reg bestMatch ''fuzzy'' bestScore
                  else if bestScore \<ge> 7 / 10 then push_review st e reg bestMatch bestScore
                  else push_missing st e reg
              | (None, bestScore) \<Rightarrow> push_missing st e reg))"

definition initial_state :: match_state where
  \<comment> \<open>the three empty lists and the empty set before the loop\<close>
  "initial_state = \<lparr>matched = [], reviewNeeded = [], missingWallets = [], usedWallets = {}\<rparr>"

definition match_all :: "(string \<times> wallet_entry) list \<Rightarrow> (string \<times> registration) list \<Rightarrow> match_state" where
  \<comment> \<open>step 3: the loop over \<open>registrationsByEmail\<close>, in insertion order\<close>
  "match_all walletsByName registrationsByEmail =
     fold (match_step walletsByName) registrationsByEmail initial_state"

definition consolidate :: "string \<Rightarrow> (string \<times> string) list \<Rightarrow> match_state" where
  \<comment> \<open>steps 1 to 3 of \<open>main\<close> on the wallet file's text and on each registration file's
      campus label (what \<open>extractCampus\<close> reads from the file name) and text\<close>
  "consolidate walletContent lumaFiles =
     (let walletsByName = snd (load_wallets ([], []) (parseCSV walletContent));
          registrationsByEmail = load_registrations [] (map (\<lambda>(c, content). (c, parseCSV content)) lumaFiles)
      in match_all walletsByName registrationsByEmail)"

section \<open>Builder verification (verify.js)\<close>

record signature_info =
  signature :: string
  blockTime :: "int option"

text \<open>
  The ledger is outside the program. \<open>publicKeyError a\<close> is the message of the error
  \<open>new PublicKey(a)\<close> throws, if it throws; \<open>getSignaturesForAddress queried a\<close> is what the
  query for \<open>a\<close> does after the earlier queries \<open>queried\<close>: it throws, or it returns a list
  (or nothing). The program asks for the 100 most recent signatures; the list is what
  the ledger answers, newest first.
\<close>

datatype lookup = Throws string | Returned "signature_info list option"

record rpc =
  publicKeyError :: "string \<Rightarrow> string option"
  getSignaturesForAddress :: "string list \<Rightarrow> string \<Rightarrow> lookup"

record activity =
  isBuilder :: bool
  transactionCount :: nat
  firstTx :: "string option"
  error :: "string option"

definition isValidSolanaAddress :: "string option \<Rightarrow> bool" where
  \<comment> \<open>\<open>/^[1-9A-HJ-NP-Za-km-z]{32,44}$/\<close> on a present, non-empty text\<close>
  "isValidSolanaAddress address =
     (case address of
        None \<Rightarrow> False
      | Some s \<Rightarrow> s \<noteq> [] \<and> rx_test (Between (Atom base58_class) 32 44) s)"

definition in_window :: "int \<Rightarrow> int \<Rightarrow> signature_info \<Rightarrow> bool" where
  \<comment> \<open>the filter's callback; the dates are given in milliseconds (\<open>getTime()\<close>), and a
      block time that is \<open>null\<close> or \<open>0\<close> is falsy\<close>
  "in_window startDate endDate sig =
     (let startTime = (of_int startDate :: rat) / 1000;
          endTime = (of_int endDate :: rat) / 1000
      in case blockTime sig of
           None \<Rightarrow> False
         | Some t \<Rightarrow> if t = 0 then False else of_int t \<ge> startTime \<and> of_int t \<le> endTime)"

definition no_activity :: "string option \<Rightarrow> activity" where
  "no_activity e = \<lparr>isBuilder = False, transactionCount = 0, firstTx = None, error = e\<rparr>"

definition checkWalletActivity ::
  "rpc \<Rightarrow> string list \<Rightarrow> string option \<Rightarrow> int \<Rightarrow> int \<Rightarrow> activity \<times> string list" where
  \<comment> \<open>the result and the ledger queries made so far, in order\<close>
  "checkWalletActivity connection queried walletAddress startDate endDate =
     (case walletAddress of
        None \<Rightarrow> (no_activity (Some ''Invalid address''), queried)
      | Some a \<Rightarrow>
          if \<not> isValidSolanaAddress (Some a) then (no_activity (Some ''Invalid address''), queried)
          else
            (case publicKeyError connection a of
               Some msg \<Rightarrow> (no_activity (Some msg), queried)
             | None \<Rightarrow>
                 (case getSignaturesForAddress connection queried a of
                    Throws msg \<Rightarrow> (no_activity (Some msg), queried @ [a])
                  | Returned None \<Rightarrow> (no_activity None, queried @ [a])
                  | Returned (Some signatures) \<Rightarrow>
                      if length signatures = 0 then (no_activity None, queried @ [a])
                      else (let relevantTxs = filter (in_window startDate endDate) signatures;
                                n = length relevantTxs
                            in (\<lparr>isBuilder = (n > 0), transactionCount = n,
                                 firstTx = (if n > 0 then Some (signature (relevantTxs ! (n - 1))) else None),
                                 error = None\<rparr>,
                                queried @ [a])))))"

record builder =
  b_participant :: participant
  b_transactionCount :: nat
  b_firstTx :: "string option"

record nonBuilder =
  nb_participant :: participant
  nb_error :: "string option"

record verification =
  builders :: "builder list"
  nonBuilders :: "nonBuilder list"

fun verify_loop ::
  "rpc \<Rightarrow> int \<Rightarrow> int \<Rightarrow> verification \<times> string list \<Rightarrow> participant list \<Rightarrow> verification \<times> string list" where
  \<comment> \<open>the \<open>for\<close> loop over the remaining participants; the pacing delay and the progress
      callback do not enter the result\<close>
  "verify_loop connection startDate endDate (v, queried) [] = (v, queried)"
| "verify_loop connection startDate endDate (v, queried) (p # ps) =
     (case checkWalletActivity connection queried (wallet p) startDate endDate of
        (result, queried') \<Rightarrow>
          if isBuilder result
          then verify_loop connection startDate endDate
                 (v\<lparr>builders := builders v @
                      [\<lparr>b_participant = p, b_transactionCount = transactionCount result,
                        b_firstTx = firstTx result\<rparr>]\<rparr>, queried') ps
          else verify_loop connection startDate endDate
                 (v\<lparr>nonBuilders := nonBuilders v @
                      [\<lparr>nb_participant = p,
                        nb_error = (case error result of None \<Rightarrow> None
                                    | Some msg \<Rightarrow> if msg = [] then None else Some msg)\<rparr>]\<rparr>, queried') ps)"

definition verifyAllParticipants ::
  "rpc \<Rightarrow> string list \<Rightarrow> participant list \<Rightarrow> int \<Rightarrow> int \<Rightarrow> verification \<times> string list" where
  "verifyAllParticipants connection queried participants startDate endDate =
     verify_loop connection startDate endDate (\<lparr>builders = [], nonBuilders = []\<rparr>, queried) participants"

section \<open>Notions used to state the properties\<close>

definition first_with_key :: "participant list \<Rightarrow> nat \<Rightarrow> bool" where
  \<comment> \<open>record \<open>i\<close> has a wallet and no earlier record with a wallet has the same key\<close>
  "first_with_key ps i =
     (has_wallet (ps ! i) \<and> (\<forall>j<i. has_wallet (ps ! j) \<longrightarrow> key_of (ps ! j) \<noteq> key_of (ps ! i)))"

definition classified :: "participant list \<Rightarrow> bool list \<Rightarrow> verification \<Rightarrow> bool" where
  \<comment> \<open>one flag per input position: the flagged positions are the builders, in input order,
      and the others the non-builders, in input order\<close>
  "classified ps flags v =
     (length flags = length ps \<and>
      map b_participant (builders v) = map fst (filter snd (zip ps flags)) \<and>
      map nb_participant (nonBuilders v) = map fst (filter (\<lambda>x. \<not> snd x) (zip ps flags)))"

definition lookup_throws :: "rpc \<Rightarrow> string list \<Rightarrow> string \<Rightarrow> string \<Rightarrow> bool" where
  \<comment> \<open>the ledger lookup for \<open>w\<close> throws an error with message \<open>msg\<close>\<close>
  "lookup_throws c q w msg =
     (publicKeyError c w = Some msg \<or>
      (publicKeyError c w = None \<and> getSignaturesForAddress c q w = Throws msg))"

fun check_each ::
  "rpc \<Rightarrow> int \<Rightarrow> int \<Rightarrow> string list \<Rightarrow> participant list \<Rightarrow> (participant \<times> activity) list" where
  \<comment> \<open>each participant with the result of its own \<open>checkWalletActivity\<close> call, the calls
      made in input order, each after the ledger queries of the calls before it\<close>
  "check_each c s e q [] = []"
| "check_each c s e q (p # ps) =
     (case checkWalletActivity c q (wallet p) s e of
        (result, q') \<Rightarrow> (p, result) # check_each c s e q' ps)"

definition as_builder :: "participant \<times> activity \<Rightarrow> builder" where
  \<comment> \<open>the \<open>builders\<close> entry of a participant and its check result\<close>
  "as_builder x = \<lparr>b_participant = fst x, b_transactionCount = transactionCount (snd x),
                   b_firstTx = firstTx (snd x)\<rparr>"

definition as_nonBuilder :: "participant \<times> activity \<Rightarrow> nonBuilder" where
  \<comment> \<open>the \<open>nonBuilders\<close> entry of a participant and its check result: the error tag, or
      \<open>null\<close> when there is none or it is empty\<close>
  "as_nonBuilder x = \<lparr>nb_participant = fst x,
                      nb_error = (case error (snd x) of None \<Rightarrow> None
                                  | Some msg \<Rightarrow> if msg = [] then None else Some msg)\<rparr>"

definition block_time_in_window :: "int \<Rightarrow> int \<Rightarrow> signature_info \<Rightarrow> bool" where
  \<comment> \<open>the entry has a block time \<open>t\<close> (in seconds) inside the closed window, whose ends
      are given in milliseconds\<close>
  "block_time_in_window startDate endDate sg =
     (case blockTime sg of
        None \<Rightarrow> False
      | Some t \<Rightarrow> startDate \<le> 1000 * t \<and> 1000 * t \<le> endDate)"

definition counted :: "int \<Rightarrow> int \<Rightarrow> signature_info \<Rightarrow> bool" where
  \<comment> \<open>a block time inside the closed window that is not \<open>0\<close>\<close>
  "counted startDate endDate sg = (block_time_in_window startDate endDate sg \<and> blockTime sg \<noteq> Some 0)"

definition email_shaped :: "string \<Rightarrow> bool" where
  \<comment> \<open>the shape \<open>local@domain.tld\<close>: three non-empty parts without whitespace or \<open>@\<close>,
      joined by an \<open>@\<close> and a dot\<close>
  "email_shaped s =
     (\<exists>lp dom tld. s = lp @ [CHR ''@''] @ dom @ [CHR ''.''] @ tld \<and>
        lp \<noteq> [] \<and> dom \<noteq> [] \<and> tld \<noteq> [] \<and>
        (\<forall>c\<in>set (lp @ dom @ tld). \<not> is_space c \<and> c \<noteq> CHR ''@''))"

definition email_warning :: "nat \<Rightarrow> string \<Rightarrow> string" where
  \<comment> \<open>the message for an email of the wrong shape in row \<open>rowNum\<close>\<close>
  "email_warning rowNum e =
     ''Row '' @ string_of_nat rowNum @ '': Invalid email format (email: '' @ [dquote] @ e @ [dquote]
       @ '') - will skip email notification''"

definition wallet_ok :: "participant \<Rightarrow> bool" where
  \<comment> \<open>the record has a wallet that passes \<open>validateWalletAddress\<close>\<close>
  "wallet_ok p = (\<exists>w. wallet p = Some w \<and> is_valid (validateWalletAddress (JStr w)))"

definition unconsumed_scores :: "string set \<Rightarrow> string \<Rightarrow> (string \<times> wallet_entry) list \<Rightarrow> rat list" where
  \<comment> \<open>the similarity of \<open>n\<close> to the key of every entry of the lookup table
      \<open>walletsByName\<close> (one entry per canonical name, holding the first wallet record of
      that name) whose wallet is not yet consumed\<close>
  "unconsumed_scores used n walletsByName =
     map (\<lambda>(k, w). similarity n k) (filter (\<lambda>(k, w). w_wallet w \<notin> used) walletsByName)"

definition best_score :: "string set \<Rightarrow> string \<Rightarrow> (string \<times> wallet_entry) list \<Rightarrow> rat" where
  \<comment> \<open>the best of these scores, \<open>0\<close> when there is none\<close>
  "best_score used n walletsByName = Max (set (0 # unconsumed_scores used n walletsByName))"

definition review_candidate :: "string \<Rightarrow> registration \<Rightarrow> wallet_entry \<Rightarrow> rat \<Rightarrow> review_entry" where
  \<comment> \<open>the review entry of registration \<open>reg\<close> (email \<open>e\<close>) suggesting wallet entry \<open>w\<close>\<close>
  "review_candidate e reg w sc =
     \<lparr>lumaName = r_name reg, lumaEmail = e, suggestedMatch = w_name w,
      suggestedWallet = w_wallet w, rv_confidence = sc,
      rv_campuses = join '', '' (r_campuses reg)\<rparr>"

definition latin_letter :: "char \<Rightarrow> bool" where
  \<comment> \<open>a letter \<open>A-Z\<close> or \<open>a-z\<close>\<close>
  "latin_letter c = (in_range CHR ''A'' CHR ''Z'' c \<or> in_range CHR ''a'' CHR ''z'' c)"

fun has_double_space :: "string \<Rightarrow> bool" where
  \<comment> \<open>two consecutive spaces somewhere in the string\<close>
  "has_double_space (a # b # cs) = ((a = CHR '' '' \<and> b = CHR '' '') \<or> has_double_space (b # cs))"
| "has_double_space cs = False"

definition plain_value :: "string \<Rightarrow> bool" where
  \<comment> \<open>no quote character, no line break, no whitespace at either end\<close>
  "plain_value v = (dquote \<notin> set v \<and> newline \<notin> set v \<and> trim v = v)"

definition plain_column :: "string \<Rightarrow> bool" where
  \<comment> \<open>a column name: not \<open>__proto__\<close>, no comma, and plain as a value is\<close>
  "plain_column c = (c \<noteq> ''__proto__'' \<and> comma \<notin> set c \<and> plain_value c)"

definition own_value :: "row \<Rightarrow> string \<Rightarrow> string" where
  \<comment> \<open>the record's own value in a column, an absent value read as the empty string\<close>
  "own_value r col = (case r col of None \<Rightarrow> [] | Some v \<Rightarrow> v)"

definition own_or_not_inherited :: "row \<Rightarrow> string \<Rightarrow> bool" where
  \<comment> \<open>the column is a property of the record itself, or no plain object inherits a
      member of that name\<close>
  "own_or_not_inherited r col = (r col \<noteq> None \<or> inherited col = None)"

definition project :: "string list \<Rightarrow> row \<Rightarrow> row" where
  \<comment> \<open>the row with exactly the given columns, an absent value read as the empty string\<close>
  "project columns r = (\<lambda>k. if k \<in> set columns then Some (own_value r k) else None)"

definition row_line :: "string list \<Rightarrow> row \<Rightarrow> string" where
  \<comment> \<open>the line \<open>toCSV\<close> writes for one row\<close>
  "row_line columns r = join [comma] (map csv_cell (map (field r) columns))"

section \<open>Sample data\<close>

definition address_A :: string where
  "address_A = ''7xKXtg2CW87d97TXJSDpbD5jBkheTqA83TZRuJosgAsU''"

definition address_B :: string where
  "address_B = ''9WzDXwBbmkg8ZTbNMqUxvQRAyrZzDsGYdLVL9zYtAWWM''"

definition address_C :: string where
  "address_C = ''4Nd1mBQtrMJVYVfKf2PJy9NZUZdTAsp7D4xWLs4gDB4T''"

definition tour_start :: int where
  \<comment> \<open>2025-01-01T00:00:00Z in milliseconds\<close>
  "tour_start = 1735689600000"

definition tour_end :: int where
  \<comment> \<open>2025-12-31T00:00:00Z in milliseconds\<close>
  "tour_end = 1767139200000"

definition sample_signatures :: "signature_info list" where
  \<comment> \<open>newest first: February 2026, September 2025, one without a time, 15 June 2025, June 2024\<close>
  "sample_signatures =
     [\<lparr>signature = ''sig2026'', blockTime = Some 1769904000\<rparr>,
      \<lparr>signature = ''sigSeptember'', blockTime = Some 1756684800\<rparr>,
      \<lparr>signature = ''sigNoTime'', blockTime = None\<rparr>,
      \<lparr>signature = ''sigJune'', blockTime = Some 1749945600\<rparr>,
      \<lparr>signature = ''sig2024'', blockTime = Some 1718409600\<rparr>]"

definition sample_ledger :: rpc where
  \<comment> \<open>the query for \<open>address_B\<close> fails; any address but A and B has one transaction, on
      15 June 2025\<close>
  "sample_ledger =
     \<lparr>publicKeyError = (\<lambda>a. None),
      getSignaturesForAddress = (\<lambda>queried a.
        if a = address_A then Returned (Some sample_signatures)
        else if a = address_B then Throws ''429 Too Many Requests''
        else Returned (Some [\<lparr>signature = ''sigOnly'', blockTime = Some 1749945600\<rparr>]))\<rparr>"

definition epoch_ledger :: rpc where
  \<comment> \<open>every address has one transaction, with block time 0\<close>
  "epoch_ledger =
     \<lparr>publicKeyError = (\<lambda>a. None),
      getSignaturesForAddress = (\<lambda>queried a. Returned (Some [\<lparr>signature = ''sigEpoch'', blockTime = Some 0\<rparr>]))\<rparr>"

definition person :: "string \<Rightarrow> string \<Rightarrow> participant" where
  "person n w = \<lparr>name = Some n, wallet = Some w, email = None, campus = None\<rparr>"

definition ada :: participant where
  "ada = \<lparr>name = Some ''Ada'', wallet = Some address_A, email = Some ''not-an-email'',
          campus = Some ''UNILAG''\<rparr>"

definition john_smith :: wallet_entry where
  "john_smith = \<lparr>w_name = ''John Smith'', w_normalizedName = ''john smith'',
                 w_wallet = address_A, w_programId = [], w_github = []\<rparr>"

definition jon_smyth :: registration where
  "jon_smyth = \<lparr>r_name = ''Jon Smyth'', r_normalizedName = ''jon smyth'',
                r_email = ''jon@example.com'', r_campuses = [''UNILAG''], r_daysAttended = 1,
                r_attended = True\<rparr>"

definition wallets_csv :: string where
  \<comment> \<open>a wallet export with one row\<close>
  "wallets_csv = ''Full Name,Devnet Wallet Address'' @ [newline] @
                 ''Jane Doe,7xKXtg2CW87d97TXJSDpbD5jBkheTqA83TZRuJosgAsU''"

definition luma_csv :: string where
  \<comment> \<open>a registration export: two people of the same name, with different emails\<close>
  "luma_csv = ''name,email'' @ [newline] @
              ''Jane Doe,jane@x.com'' @ [newline] @
              ''Jane Doe,jdoe@y.org''"

definition shadowed_wallets_csv :: string where
  \<comment> \<open>a wallet export with two records of the same canonical name\<close>
  "shadowed_wallets_csv = ''Full Name,Devnet Wallet Address'' @ [newline] @
                 ''John Smith,7xKXtg2CW87d97TXJSDpbD5jBkheTqA83TZRuJosgAsU'' @ [newline] @
                 ''JOHN SMITH,'' @ address_B"

definition smith_smyth_csv :: string where
  \<comment> \<open>a registration export: the first name is in the wallet export, the second is close\<close>
  "smith_smyth_csv = ''name,email'' @ [newline] @
              ''John Smith,john@x.com'' @ [newline] @
              ''Jon Smyth,jon@y.org''"

definition report_columns :: "string list" where
  "report_columns = [''name'', ''campuses'']"

definition report_rows :: "row list" where
  \<comment> \<open>a value with a comma, and an empty last value\<close>
  "report_rows =
     [map_of [(''name'', ''Ada''), (''campuses'', ''UNILAG, UI'')],
      map_of [(''name'', ''Bo''), (''campuses'', [])]]"

section \<open>Properties\<close>

subsection \<open>What the pattern test decides\<close>

inductive_cases m_FailE: "matches Fail w"
inductive_cases m_EpsE: "matches Eps w"
inductive_cases m_AtomE: "matches (Atom p) w"
inductive_cases m_AltE: "matches (Alt r s) w"
inductive_cases m_SeqE: "matches (Seq r s) w"

lemma nullable_matches: "nullable r \<longleftrightarrow> matches r []"
proof (induction r)
  case (Seq r s)
  then show ?case by (auto intro: m_Seq[of r "[]" s "[]", simplified] elim!: m_SeqE)
qed (auto intro: matches.intros elim: m_FailE m_EpsE m_AtomE m_AltE)

lemma star_cons:
  "matches r' w \<Longrightarrow> r' = Star r \<Longrightarrow> w = c # x \<Longrightarrow>
     \<exists>u v. x = u @ v \<and> matches r (c # u) \<and> matches (Star r) v"
proof (induction arbitrary: x rule: matches.induct)
  case (m_StarStep r0 u v)
  show ?case
  proof (cases u)
    case Nil
    with m_StarStep show ?thesis by simp
  next
    case (Cons a u')
    with m_StarStep.prems m_StarStep.hyps show ?thesis by auto
  qed
qed auto

lemma deriv_matches: "matches (deriv c r) w \<longleftrightarrow> matches r (c # w)"
proof (induction r arbitrary: w)
  case Fail
  show ?case by (auto elim: m_FailE)
next
  case Eps
  show ?case by (auto elim: m_FailE m_EpsE)
next
  case (Atom p)
  show ?case by (auto elim: m_FailE m_EpsE m_AtomE intro: matches.intros)
next
  case (Alt r s)
  then show ?case by (auto elim!: m_AltE intro: matches.intros)
next
  case (Seq r s)
  show ?case
  proof
    assume "matches (deriv c (Seq r s)) w"
    then consider (a) "matches (Seq (deriv c r) s) w" | (b) "nullable r" "matches (deriv c s) w"
      by (auto split: if_splits elim: m_AltE)
    then show "matches (Seq r s) (c # w)"
    proof cases
      case a
      then obtain u v where "w = u @ v" "matches (deriv c r) u" "matches s v"
        by (auto elim: m_SeqE)
      then show ?thesis using Seq.IH(1)[of u] m_Seq[of r "c # u" s v] by simp
    next
      case b
      then show ?thesis using Seq.IH(2)[of w] m_Seq[of r "[]" s "c # w"]
        by (simp add: nullable_matches)
    qed
  next
    assume "matches (Seq r s) (c # w)"
    then obtain u v where uv: "c # w = u @ v" "matches r u" "matches s v"
      by (auto elim: m_SeqE)
    show "matches (deriv c (Seq r s)) w"
    proof (cases u)
      case Nil
      with uv have "nullable r" "matches (deriv c s) w"
        by (simp_all add: nullable_matches Seq.IH(2))
      then show ?thesis by (auto intro: matches.intros)
    next
      case (Cons a u')
      with uv have "matches (deriv c r) u'" "w = u' @ v" using Seq.IH(1)[of u'] by simp_all
      with uv(3) have "matches (Seq (deriv c r) s) w" by (auto intro: matches.intros)
      then show ?thesis by (auto intro: matches.intros)
    qed
  qed
next
  case (Star r)
  show ?case
  proof
    assume "matches (deriv c (Star r)) w"
    then obtain u v where "w = u @ v" "matches (deriv c r) u" "matches (Star r) v"
      by (auto elim: m_SeqE)
    then show "matches (Star r) (c # w)"
      using Star.IH[of u] m_StarStep[of r "c # u" v] by simp
  next
    assume "matches (Star r) (c # w)"
    from star_cons[OF this refl refl]
    obtain u v where "w = u @ v" "matches r (c # u)" "matches (Star r) v" by blast
    then show "matches (deriv c (Star r)) w"
      using Star.IH[of u] by (auto intro: matches.intros)
  qed
qed

lemma rx_test_matches: "rx_test r w \<longleftrightarrow> matches r w"
  by (induction w arbitrary: r) (simp_all add: nullable_matches deriv_matches)

lemma star_atom_all:
  "matches r w \<Longrightarrow> r = Star (Atom p) \<Longrightarrow> \<forall>c\<in>set w. p c"
  by (induction rule: matches.induct) (auto elim: m_AtomE)

lemma all_star_atom: "\<forall>c\<in>set w. p c \<Longrightarrow> matches (Star (Atom p)) w"
proof (induction w)
  case Nil
  show ?case by (rule m_StarNil)
next
  case (Cons a w)
  then have "matches (Atom p) [a]" "matches (Star (Atom p)) w"
    by (auto intro: m_Atom)
  from m_StarStep[OF this] show ?case by simp
qed

lemma matches_star_atom: "matches (Star (Atom p)) w \<longleftrightarrow> (\<forall>c\<in>set w. p c)"
  using star_atom_all all_star_atom by blast

lemma matches_atom: "matches (Atom p) w \<longleftrightarrow> (\<exists>c. w = [c] \<and> p c)"
  by (auto elim: m_AtomE intro: m_Atom)

lemma matches_seq: "matches (Seq r s) w \<longleftrightarrow> (\<exists>u v. w = u @ v \<and> matches r u \<and> matches s v)"
  by (blast elim: m_SeqE intro: m_Seq)

lemma matches_plus_atom: "matches (OneOrMore (Atom p)) w \<longleftrightarrow> (w \<noteq> [] \<and> (\<forall>c\<in>set w. p c))"
proof (cases w)
  case Nil
  then show ?thesis by (simp add: OneOrMore_def matches_seq matches_atom)
next
  case (Cons a x)
  have "(\<exists>u v. a # x = u @ v \<and> (\<exists>c. u = [c] \<and> p c) \<and> (\<forall>c\<in>set v. p c))
          \<longleftrightarrow> (p a \<and> (\<forall>c\<in>set x. p c))"
    by (auto intro: exI[of _ "[a]"])
  then show ?thesis using Cons
    by (simp add: OneOrMore_def matches_seq matches_atom matches_star_atom)
qed

lemma base58_class_alphabet: "base58_class c \<longleftrightarrow> c \<in> set base58_alphabet"
  by (cases c) (simp add: base58_class_def in_range_def code_def base58_alphabet_def)

lemma trimEnd_fixed: "trimEnd s = s \<longleftrightarrow> (s = [] \<or> \<not> is_space (last s))"
proof (cases s rule: rev_cases)
  case Nil
  then show ?thesis by (simp add: trimEnd_def)
next
  case (snoc ys y)
  show ?thesis
  proof (cases "is_space y")
    case True
    have "length (dropWhile is_space (rev ys)) \<le> length ys"
      using length_dropWhile_le[of is_space "rev ys"] by simp
    then have "length (trimEnd s) < length s"
      using snoc True by (simp add: trimEnd_def)
    then show ?thesis using snoc True by auto
  next
    case False
    then show ?thesis using snoc by (simp add: trimEnd_def)
  qed
qed

lemma trimStart_fixed: "trimStart s = s \<longleftrightarrow> (s = [] \<or> \<not> is_space (hd s))"
proof (cases s)
  case Nil
  then show ?thesis by (simp add: trimStart_def)
next
  case (Cons a x)
  show ?thesis
  proof (cases "is_space a")
    case True
    have "length (dropWhile is_space x) \<le> length x" by (rule length_dropWhile_le)
    then have "length (trimStart s) < length s" using Cons True by (simp add: trimStart_def)
    then show ?thesis using Cons True by auto
  next
    case False
    then show ?thesis using Cons by (simp add: trimStart_def)
  qed
qed

lemma length_trimEnd: "length (trimEnd s) \<le> length s"
  using length_dropWhile_le[of is_space "rev s"] by (simp add: trimEnd_def)

lemma length_trimStart: "length (trimStart s) \<le> length s"
  by (simp add: trimStart_def length_dropWhile_le)

lemma trim_fixed: "trim s = s \<longleftrightarrow> \<not> surrounding_space s"
proof (cases "trimStart s = s")
  case True
  then have "trim s = s \<longleftrightarrow> trimEnd s = s" by (simp add: trim_def)
  then show ?thesis using True
    by (auto simp: trimEnd_fixed trimStart_fixed surrounding_space_def)
next
  case False
  then obtain a x where ax: "s = a # x" "is_space a"
    using trimStart_fixed[of s] by (cases s) auto
  have "length (dropWhile is_space x) \<le> length x" by (rule length_dropWhile_le)
  then have "length (trimStart s) < length s" using ax by (simp add: trimStart_def)
  then have "length (trim s) < length s"
    using length_trimEnd[of "trimStart s"] by (simp add: trim_def)
  then have "trim s \<noteq> s" by auto
  then show ?thesis using False by (auto simp: trimStart_fixed surrounding_space_def)
qed

subsection \<open>Wallet address validation\<close>

text \<open>
  Claim C5. \<open>validateWalletAddress p\<close> is valid exactly when \<open>p\<close> is a text of 32 to 44
  characters, every one of them in the base-58 alphabet (the digits and letters without
  \<open>0\<close>, \<open>O\<close>, \<open>I\<close> and \<open>l\<close>), with no whitespace at its start or end. Any other value
  (\<open>null\<close>, \<open>undefined\<close>, a number, an object) is invalid.
\<close>

theorem validateWalletAddress_valid_iff:
  "is_valid (validateWalletAddress p) \<longleftrightarrow>
     (\<exists>s. p = JStr s \<and> 32 \<le> length s \<and> length s \<le> 44 \<and>
          (\<forall>c\<in>set s. c \<in> set base58_alphabet) \<and> \<not> surrounding_space s)"
proof (cases p)
  case (JStr s)
  show ?thesis
  proof (cases "s = []")
    case True
    then show ?thesis using JStr by (simp add: validateWalletAddress_def)
  next
    case False
    then show ?thesis using JStr
      by (auto simp: validateWalletAddress_def trim_fixed rx_test_matches base58Regex_def
          matches_plus_atom base58_class_alphabet)
  qed
qed (simp_all add: validateWalletAddress_def)



theorem validateWalletAddress_valid_iff_witness:
  "is_valid (validateWalletAddress (JStr ''7xKXtg2CW87d97TXJSDpbD5jBkheTqA83TZRuJosgAs''))
   \<and> \<not> is_valid (validateWalletAddress (JStr ''7xKXtg2CW87d97TXJSDpbD5jBkheTqA83TZRuJosgAsUU''))
   \<and> \<not> is_valid (validateWalletAddress (JStr ''0xKXtg2CW87d97TXJSDpbD5jBkheTqA83TZRuJosgAs''))
   \<and> \<not> is_valid (validateWalletAddress JNull)"
  using validateWalletAddress_valid_iff[of "JStr ''7xKXtg2CW87d97TXJSDpbD5jBkheTqA83TZRuJosgAs''"]
        validateWalletAddress_valid_iff[of "JStr ''7xKXtg2CW87d97TXJSDpbD5jBkheTqA83TZRuJosgAsUU''"]
        validateWalletAddress_valid_iff[of "JStr ''0xKXtg2CW87d97TXJSDpbD5jBkheTqA83TZRuJosgAs''"]
        validateWalletAddress_valid_iff[of JNull]
  by (simp add: base58_alphabet_def surrounding_space_def is_space_def code_def)

subsection \<open>Email validation\<close>

lemma matches_seq_atom:
  "matches (Seq (Atom p) r) w \<longleftrightarrow> (\<exists>c v. w = c # v \<and> p c \<and> matches r v)"
proof
  assume "matches (Seq (Atom p) r) w"
  then obtain u v where "w = u @ v" "matches (Atom p) u" "matches r v"
    unfolding matches_seq by blast
  then show "\<exists>c v. w = c # v \<and> p c \<and> matches r v"
    unfolding matches_atom by auto
next
  assume "\<exists>c v. w = c # v \<and> p c \<and> matches r v"
  then obtain c v where w: "w = c # v" and "p c" and r: "matches r v" by blast
  then have "matches (Atom p) [c]" by (simp add: m_Atom)
  from m_Seq[OF this r] show "matches (Seq (Atom p) r) w" using w by simp
qed

lemma matches_seq_plus:
  "matches (Seq (OneOrMore (Atom p)) r) w \<longleftrightarrow>
     (\<exists>u v. w = u @ v \<and> u \<noteq> [] \<and> (\<forall>c\<in>set u. p c) \<and> matches r v)"
  unfolding matches_seq[of "OneOrMore (Atom p)"] matches_plus_atom by simp

lemma emailRegex_unfolded:
  "rx_test emailRegex s \<longleftrightarrow>
     (\<exists>a r1. s = a @ r1 \<and> a \<noteq> [] \<and> (\<forall>c\<in>set a. not_space_at c) \<and>
        (\<exists>c1 r2. r1 = c1 # r2 \<and> c1 = CHR ''@'' \<and>
           (\<exists>b r3. r2 = b @ r3 \<and> b \<noteq> [] \<and> (\<forall>c\<in>set b. not_space_at c) \<and>
              (\<exists>c2 d. r3 = c2 # d \<and> c2 = CHR ''.'' \<and> d \<noteq> [] \<and> (\<forall>c\<in>set d. not_space_at c)))))"
  unfolding rx_test_matches emailRegex_def matches_seq_plus matches_seq_atom matches_plus_atom
  by (rule refl)

lemma emailRegex_shaped_if: "rx_test emailRegex s \<Longrightarrow> email_shaped s"
proof -
  assume "rx_test emailRegex s"
  then have "\<exists>a r1. s = a @ r1 \<and> a \<noteq> [] \<and> (\<forall>c\<in>set a. not_space_at c) \<and>
        (\<exists>c1 r2. r1 = c1 # r2 \<and> c1 = CHR ''@'' \<and>
           (\<exists>b r3. r2 = b @ r3 \<and> b \<noteq> [] \<and> (\<forall>c\<in>set b. not_space_at c) \<and>
              (\<exists>c2 d. r3 = c2 # d \<and> c2 = CHR ''.'' \<and> d \<noteq> [] \<and> (\<forall>c\<in>set d. not_space_at c))))"
    by (simp only: emailRegex_unfolded)
  then obtain a r1 c1 r2 b r3 c2 d where
     "s = a @ r1" "a \<noteq> []" "\<forall>c\<in>set a. not_space_at c" "r1 = c1 # r2" "c1 = CHR ''@''"
     "r2 = b @ r3" "b \<noteq> []" "\<forall>c\<in>set b. not_space_at c" "r3 = c2 # d" "c2 = CHR ''.''"
     "d \<noteq> []" "\<forall>c\<in>set d. not_space_at c"
    by (elim exE conjE)
  then show "email_shaped s"
    unfolding email_shaped_def
    by (intro exI[of _ a] exI[of _ b] exI[of _ d]) (simp add: not_space_at_def ball_Un)
qed

lemma shaped_emailRegex_if: "email_shaped s \<Longrightarrow> rx_test emailRegex s"
proof -
  assume "email_shaped s"
  then obtain a b d where s: "s = a @ [CHR ''@''] @ b @ [CHR ''.''] @ d"
    and ne: "a \<noteq> []" "b \<noteq> []" "d \<noteq> []"
    and cl: "\<forall>c\<in>set (a @ b @ d). \<not> is_space c \<and> c \<noteq> CHR ''@''"
    unfolding email_shaped_def by (elim exE conjE)
  have c: "\<forall>c\<in>set a. not_space_at c" "\<forall>c\<in>set b. not_space_at c" "\<forall>c\<in>set d. not_space_at c"
    using cl by (simp_all add: not_space_at_def ball_Un)
  have 3: "\<exists>c2 d'. CHR ''.'' # d = c2 # d' \<and> c2 = CHR ''.'' \<and> d' \<noteq> [] \<and> (\<forall>c\<in>set d'. not_space_at c)"
    using ne(3) c(3) by simp
  have 2: "\<exists>b' r3. b @ CHR ''.'' # d = b' @ r3 \<and> b' \<noteq> [] \<and> (\<forall>c\<in>set b'. not_space_at c) \<and>
              (\<exists>c2 d'. r3 = c2 # d' \<and> c2 = CHR ''.'' \<and> d' \<noteq> [] \<and> (\<forall>c\<in>set d'. not_space_at c))"
    by (rule exI[of _ b], rule exI[of _ "CHR ''.'' # d"]) (use ne(2) c(2) 3 in simp)
  have 1: "\<exists>c1 r2. CHR ''@'' # b @ CHR ''.'' # d = c1 # r2 \<and> c1 = CHR ''@'' \<and>
           (\<exists>b' r3. r2 = b' @ r3 \<and> b' \<noteq> [] \<and> (\<forall>c\<in>set b'. not_space_at c) \<and>
              (\<exists>c2 d'. r3 = c2 # d' \<and> c2 = CHR ''.'' \<and> d' \<noteq> [] \<and> (\<forall>c\<in>set d'. not_space_at c)))"
    by (rule exI[of _ "CHR ''@''"], rule exI[of _ "b @ CHR ''.'' # d"]) (use 2 in simp)
  show "rx_test emailRegex s"
    unfolding emailRegex_unfolded
    by (rule exI[of _ a], rule exI[of _ "CHR ''@'' # b @ CHR ''.'' # d"]) (use ne(1) c(1) 1 s in simp)
qed

lemma emailRegex_shaped: "rx_test emailRegex s \<longleftrightarrow> email_shaped s"
  using emailRegex_shaped_if shaped_emailRegex_if by (rule iffI)

lemma validateEmail_invalid:
  "e \<noteq> [] \<Longrightarrow> trim e \<noteq> [] \<Longrightarrow> \<not> email_shaped (trim e) \<Longrightarrow>
     validateEmail (Some e) = Invalid ''Invalid email format''"
  by (simp add: validateEmail_def emailRegex_shaped)

lemma email_warnings_invalid:
  "email p = Some e \<Longrightarrow> e \<noteq> [] \<Longrightarrow> trim e \<noteq> [] \<Longrightarrow> \<not> email_shaped (trim e) \<Longrightarrow>
     email_warnings p rowNum = [email_warning rowNum e]"
  by (simp add: email_warnings_def validateEmail_invalid email_warning_def row_prefix_def)

lemma wallet_errors_empty: "wallet_errors p n = [] \<longleftrightarrow> wallet_ok p"
  by (cases "wallet p")
     (auto simp: wallet_errors_def wallet_ok_def validateWalletAddress_def split: validation.splits)

lemma validate_each_errors:
  "errors (validate_each rep i ps) =
     errors rep @ concat (map (\<lambda>(p, j). wallet_errors p (j + 1)) (zip ps [i..<i + length ps]))"
proof (induction ps arbitrary: rep i)
  case Nil
  show ?case by simp
next
  case (Cons p ps)
  have "i < i + length (p # ps)" by simp
  from upt_conv_Cons[OF this] have u: "[i..<i + length (p # ps)] = i # [Suc i..<Suc i + length ps]"
    by simp
  show ?case unfolding u
    by (simp add: Cons.IH Let_def validateParticipant_def)
qed

lemma validate_each_warnings:
  "warnings (validate_each rep i ps) =
     warnings rep @ concat (map (\<lambda>(p, j). email_warnings p (j + 1) @ name_warnings p (j + 1))
                         (zip ps [i..<i + length ps]))"
proof (induction ps arbitrary: rep i)
  case Nil
  show ?case by simp
next
  case (Cons p ps)
  have "i < i + length (p # ps)" by simp
  from upt_conv_Cons[OF this] have u: "[i..<i + length (p # ps)] = i # [Suc i..<Suc i + length ps]"
    by simp
  show ?case unfolding u
    by (simp add: Cons.IH Let_def validateParticipant_def)
qed

lemma validate_each_counts:
  "valid (validate_each rep i ps) = valid rep + length (filter wallet_ok ps) \<and>
   invalid (validate_each rep i ps) = invalid rep + length (filter (\<lambda>p. \<not> wallet_ok p) ps)"
proof (induction ps arbitrary: rep i)
  case Nil
  show ?case by simp
next
  case (Cons p ps)
  show ?case
    by (simp add: Cons.IH Let_def validateParticipant_def wallet_errors_empty)
qed

lemma zip_upt_nth:
  "i < length ps \<Longrightarrow> (ps ! i, i) \<in> set (zip ps [0..<0 + length ps])"
  by (force simp: set_zip)

lemma digit_char_not_colon: "n < 10 \<Longrightarrow> digit_char n \<noteq> CHR '':''"
proof
  assume n: "n < 10" and "digit_char n = CHR '':''"
  then have "(of_char (digit_char n) :: nat) = of_char CHR '':''" by simp
  then show False using n by simp
qed

lemma string_of_nat_no_colon: "CHR '':'' \<notin> set (string_of_nat n)"
proof (induction n rule: string_of_nat.induct)
  case (1 n)
  show ?case
  proof (cases "n < 10")
    case True
    then show ?thesis using digit_char_not_colon[OF True]
      by (subst string_of_nat.simps) (simp del: digit_char.simps)
  next
    case False
    have "n mod 10 < 10" by simp
    from digit_char_not_colon[OF this] 1[OF False] False show ?thesis
      by (subst string_of_nat.simps) (simp del: digit_char.simps)
  qed
qed

lemma split_at_mark:
  "x \<notin> set a \<Longrightarrow> x \<notin> set b \<Longrightarrow> a @ x # r = b @ x # r' \<Longrightarrow> a = b \<and> r = r'"
proof (induction a arbitrary: b)
  case Nil
  then show ?case by (cases b) auto
next
  case (Cons c a)
  then show ?case by (cases b) auto
qed

lemma row_prefix_split:
  assumes "row_prefix i @ r = row_prefix j @ r'"
  shows "r = r'"
proof -
  from assms have "string_of_nat i @ CHR '':'' # (CHR '' '' # r) = string_of_nat j @ CHR '':'' # (CHR '' '' # r')"
    by (simp add: row_prefix_def)
  from split_at_mark[OF string_of_nat_no_colon string_of_nat_no_colon this] show ?thesis by simp
qed

lemma email_warning_prefix:
  "email_warning i e = row_prefix i @ ''Invalid email format (email: '' @ [dquote] @ e @ [dquote]
       @ '') - will skip email notification''"
  by (simp add: email_warning_def row_prefix_def)

lemma email_warning_not_wallet_error: "email_warning i e \<notin> set (wallet_errors p j)"
proof
  assume a: "email_warning i e \<in> set (wallet_errors p j)"
  let ?tail = "''Invalid email format (email: '' @ [dquote] @ e @ [dquote]
       @ '') - will skip email notification''"
  have m: "row_prefix i @ ?tail \<noteq> row_prefix j @ ''Missing wallet address''"
  proof
    assume "row_prefix i @ ?tail = row_prefix j @ ''Missing wallet address''"
    from row_prefix_split[OF this] show False by simp
  qed
  show False
  proof (cases "wallet p")
    case None
    then show ?thesis using a m by (simp add: wallet_errors_def email_warning_prefix)
  next
    case (Some w)
    show ?thesis
    proof (cases "w = []")
      case True
      then show ?thesis using a m Some by (simp add: wallet_errors_def email_warning_prefix)
    next
      case False
      show ?thesis
      proof (cases "validateWalletAddress (JStr w)")
        case (Invalid msg)
        then have "row_prefix i @ ?tail = row_prefix j @ (msg @ '' (wallet: '' @ [dquote] @ w @ [dquote] @ '')'')"
          using a Some False by (simp add: wallet_errors_def email_warning_prefix)
        from row_prefix_split[OF this]
        have e: "?tail = msg @ '' (wallet: '' @ [dquote] @ w @ [dquote] @ '')''" .
        have "msg = ''Missing or invalid wallet address'' \<or>
              msg = ''Wallet address has leading/trailing whitespace'' \<or>
              msg = ''Invalid length: '' @ string_of_nat (length w) @ '' chars (expected 32-44)'' \<or>
              msg = ''Contains invalid characters (not valid base58)''"
          using Invalid by (simp add: validateWalletAddress_def split: if_splits)
        then show False using e by (elim disjE) simp_all
      qed (use a Some False in \<open>simp_all add: wallet_errors_def\<close>)
    qed
  qed
qed

text \<open>
  Claim C2, amended. For a participant whose email is not empty, is not whitespace
  only, and (trimmed) does not have the shape \<open>local@domain.tld\<close>, \<open>validateEmail\<close> fails
  with \<open>Invalid email format\<close>. \<open>validateParticipant\<close> puts the message in the warning
  list, and \<open>validateAllParticipants\<close> accumulates it in the report's warning list, not
  in its error list. The errors of a record are those of its wallet check alone, so the
  record is valid exactly when its wallet is well formed, and the report counts it so.
\<close>

theorem invalid_email_is_warning:
  assumes "i < length ps" and "email (ps ! i) = Some e" and "e \<noteq> []" and "trim e \<noteq> []"
    and "\<not> email_shaped (trim e)"
  shows "validateEmail (Some e) = Invalid ''Invalid email format''
     \<and> email_warning (i + 1) e \<in> set (check_warnings (validateParticipant (ps ! i) i))
     \<and> email_warning (i + 1) e \<in> set (warnings (validateAllParticipants ps))
     \<and> email_warning (i + 1) e \<notin> set (errors (validateAllParticipants ps))
     \<and> check_errors (validateParticipant (ps ! i) i) = wallet_errors (ps ! i) (i + 1)
     \<and> check_valid (validateParticipant (ps ! i) i) = wallet_ok (ps ! i)
     \<and> errors (validateAllParticipants ps)
         = concat (map (\<lambda>(p, j). wallet_errors p (j + 1)) (zip ps [0..<length ps]))
     \<and> valid (validateAllParticipants ps) = length (filter wallet_ok ps)
     \<and> invalid (validateAllParticipants ps) = length (filter (\<lambda>p. \<not> wallet_ok p) ps)"
proof -
  have ne: "ps \<noteq> []" using assms(1) by auto
  have 1: "validateEmail (Some e) = Invalid ''Invalid email format''"
    using assms by (simp add: validateEmail_invalid)
  have ew: "email_warnings (ps ! i) (i + 1) = [email_warning (i + 1) e]"
    using assms by (simp add: email_warnings_invalid)
  have 2: "email_warning (i + 1) e \<in> set (check_warnings (validateParticipant (ps ! i) i))"
    using ew by (simp add: validateParticipant_def Let_def)
  have "email_warning (i + 1) e \<in> set ((\<lambda>(p, j). email_warnings p (j + 1) @ name_warnings p (j + 1)) (ps ! i, i))"
    using ew by simp
  then have 3: "email_warning (i + 1) e \<in> set (warnings (validateAllParticipants ps))"
    using ne zip_upt_nth[OF assms(1)]
    by (simp add: validateAllParticipants_def validate_each_warnings) blast
  have 4: "check_errors (validateParticipant (ps ! i) i) = wallet_errors (ps ! i) (i + 1)"
    by (simp add: validateParticipant_def Let_def)
  have 5: "check_valid (validateParticipant (ps ! i) i) = wallet_ok (ps ! i)"
    by (simp add: validateParticipant_def Let_def wallet_errors_empty)
  have 6: "errors (validateAllParticipants ps)
         = concat (map (\<lambda>(p, j). wallet_errors p (j + 1)) (zip ps [0..<length ps]))"
    using ne by (simp add: validateAllParticipants_def validate_each_errors)
  have 7: "valid (validateAllParticipants ps) = length (filter wallet_ok ps)"
    "invalid (validateAllParticipants ps) = length (filter (\<lambda>p. \<not> wallet_ok p) ps)"
    using ne by (simp_all add: validateAllParticipants_def validate_each_counts)
  have 8: "email_warning (i + 1) e \<notin> set (errors (validateAllParticipants ps))"
    unfolding 6 using email_warning_not_wallet_error by (auto simp del: One_nat_def)
  show ?thesis using 1 2 3 4 5 6 7 8 by simp
qed

theorem invalid_email_is_warning_witness:
  "email_warning (1 + 1) ''not-an-email''
     \<in> set (warnings (validateAllParticipants [person ''Al'' address_A, ada]))
   \<and> email_warning (1 + 1) ''not-an-email'' \<in> set (check_warnings (validateParticipant ada 1))
   \<and> email_warning (1 + 1) ''not-an-email''
     \<notin> set (errors (validateAllParticipants [person ''Al'' address_A, ada]))
   \<and> check_errors (validateParticipant ada 1) = wallet_errors ada (1 + 1)
   \<and> check_valid (validateParticipant ada 1) = wallet_ok ada"
proof -
  have h: "\<not> email_shaped (trim ''not-an-email'')"
    unfolding emailRegex_shaped[symmetric] by code_simp
  have t: "trim ''not-an-email'' \<noteq> []" by code_simp
  have n: "[person ''Al'' address_A, ada] ! 1 = ada" by simp
  have e: "email ([person ''Al'' address_A, ada] ! 1) = Some ''not-an-email''"
    unfolding n by (simp add: ada_def)
  have l: "1 < length [person ''Al'' address_A, ada]" by simp
  have ne: "''not-an-email'' \<noteq> []" by simp
  note T = invalid_email_is_warning[OF l e ne t h, unfolded n]
  show ?thesis using T by (elim conjE) (intro conjI, assumption+)
qed

text \<open>
  The claim as written puts the message in the error list and makes the record invalid.
  A record with a well-formed wallet and the email \<open>not-an-email\<close> is valid: no error,
  one warning. An email of spaces only is not flagged at all.
\<close>

theorem invalid_email_counterexample:
  "validateEmail (Some ''not-an-email'') = Invalid ''Invalid email format''
   \<and> validateParticipant ada 0 =
       \<lparr>check_valid = True, check_errors = [],
        check_warnings = [''Row 1: Invalid email format (email: '' @ [dquote] @ ''not-an-email''
          @ [dquote] @ '') - will skip email notification'']\<rparr>
   \<and> errors (validateAllParticipants [ada]) = []
   \<and> warnings (validateAllParticipants [ada]) =
        [''Row 1: Invalid email format (email: '' @ [dquote] @ ''not-an-email''
          @ [dquote] @ '') - will skip email notification'']
   \<and> valid (validateAllParticipants [ada]) = 1
   \<and> invalid (validateAllParticipants [ada]) = 0
   \<and> validateEmail (Some ''   '') = ValidMissing"
  by code_simp

subsection \<open>Removing duplicates\<close>

lemma remove_seen_nths:
  "remove_seen seen ps =
     nths ps {i. i < length ps \<and> first_with_key ps i \<and> key_of (ps ! i) \<notin> seen}"
proof (induction ps arbitrary: seen)
  case Nil
  show ?case by simp
next
  case (Cons p ps)
  let ?A = "\<lambda>sn qs. {i. i < length qs \<and> first_with_key qs i \<and> key_of (qs ! i) \<notin> sn}"
  show ?case
  proof (cases "has_wallet p \<and> key_of p \<notin> seen")
    case True
    then obtain w where w: "wallet p = Some w" "w \<noteq> []" "wallet_key w \<notin> seen"
      by (auto simp: has_wallet_def key_of_def split: option.splits)
    have kp: "key_of p = wallet_key w" using w by (simp add: key_of_def)
    have 0: "0 \<in> ?A seen (p # ps)" using True by (simp add: first_with_key_def)
    have "{j. Suc j \<in> ?A seen (p # ps)} = ?A (insert (wallet_key w) seen) ps"
      using True kp by (auto simp: first_with_key_def less_Suc_eq_0_disj all_conj_distrib)
    then show ?thesis using 0 w Cons.IH[of "insert (wallet_key w) seen"]
      by (simp add: nths_Cons)
  next
    case False
    have 0: "0 \<notin> ?A seen (p # ps)" using False by (auto simp: first_with_key_def)
    have eq: "{j. Suc j \<in> ?A seen (p # ps)} = ?A seen ps"
    proof (cases "has_wallet p")
      case True
      with False have "key_of p \<in> seen" by simp
      then show ?thesis using True
        by (auto simp: first_with_key_def less_Suc_eq_0_disj all_conj_distrib)
    next
      case False
      then show ?thesis
        by (auto simp: first_with_key_def less_Suc_eq_0_disj all_conj_distrib)
    qed
    have "remove_seen seen (p # ps) = remove_seen seen ps"
      using False by (auto simp: has_wallet_def key_of_def split: option.splits)
    then show ?thesis using 0 eq Cons.IH[of seen] by (simp add: nths_Cons)
  qed
qed

lemma remove_seen_keys:
  "distinct (map key_of (remove_seen seen ps)) \<and>
   key_of ` set (remove_seen seen ps) \<inter> seen = {} \<and>
   (\<forall>p\<in>set (remove_seen seen ps). has_wallet p)"
proof (induction ps arbitrary: seen)
  case Nil
  show ?case by simp
next
  case (Cons p ps)
  show ?case
  proof (cases "wallet p")
    case None
    then show ?thesis using Cons.IH[of seen] by simp
  next
    case (Some w)
    show ?thesis
    proof (cases "w = [] \<or> wallet_key w \<in> seen")
      case True
      then show ?thesis using Some Cons.IH[of seen] by auto
    next
      case False
      have k: "key_of p = wallet_key w" using Some by (simp add: key_of_def)
      have hw: "has_wallet p" using Some False by (simp add: has_wallet_def)
      have r: "remove_seen seen (p # ps) = p # remove_seen (insert (wallet_key w) seen) ps"
        using Some False by simp
      show ?thesis unfolding r using Cons.IH[of "insert (wallet_key w) seen"] k hw False
        by auto
    qed
  qed
qed

text \<open>
  Claim C9. \<open>removeDuplicates\<close> keeps exactly the records that have a wallet (present and
  not the empty string) and whose key, the trimmed and lower-cased wallet, is not the key
  of an earlier record with a wallet: the first occurrence of each key, in input order.
  Every record without a wallet is dropped, and no key occurs twice in the output. A
  wallet made of whitespace only is a non-empty field: such a record is kept, under the
  empty key.
\<close>

theorem removeDuplicates_first_occurrences:
  "removeDuplicates ps = nths ps {i. i < length ps \<and> first_with_key ps i}
   \<and> (\<forall>p\<in>set (removeDuplicates ps). has_wallet p)
   \<and> distinct (map key_of (removeDuplicates ps))"
  using remove_seen_keys[of "{}" ps] by (simp add: removeDuplicates_def remove_seen_nths)

theorem removeDuplicates_first_occurrences_witness:
  "nths [person ''a'' ''Abc'', person ''b'' '''', person ''c'' '' aBC '', person ''d'' ''x'',
         \<lparr>name = Some ''e'', wallet = None, email = None, campus = None\<rparr>, person ''f'' ''  '']
     {i. i < length [person ''a'' ''Abc'', person ''b'' '''', person ''c'' '' aBC '', person ''d'' ''x'',
         \<lparr>name = Some ''e'', wallet = None, email = None, campus = None\<rparr>, person ''f'' ''  '']
       \<and> first_with_key [person ''a'' ''Abc'', person ''b'' '''', person ''c'' '' aBC '', person ''d'' ''x'',
         \<lparr>name = Some ''e'', wallet = None, email = None, campus = None\<rparr>, person ''f'' ''  ''] i}
   = [person ''a'' ''Abc'', person ''d'' ''x'', person ''f'' ''  '']"
proof -
  let ?ps = "[person ''a'' ''Abc'', person ''b'' '''', person ''c'' '' aBC '', person ''d'' ''x'',
         \<lparr>name = Some ''e'', wallet = None, email = None, campus = None\<rparr>, person ''f'' ''  '']"
  have e: "removeDuplicates ?ps = [person ''a'' ''Abc'', person ''d'' ''x'', person ''f'' ''  '']"
    by code_simp
  show ?thesis
    using conjunct1[OF removeDuplicates_first_occurrences[of ?ps]] e by (simp only:)
qed

subsection \<open>Builder verification\<close>

lemma valid_A: "isValidSolanaAddress (Some address_A)" by code_simp

lemma valid_B: "isValidSolanaAddress (Some address_B)" by code_simp

lemma valid_C: "isValidSolanaAddress (Some address_C)" by code_simp

lemma verify_loop_flags:
  "\<exists>flags. length flags = length ps \<and>
     map b_participant (builders (fst (verify_loop c s e (v, q) ps)))
       = map b_participant (builders v) @ map fst (filter snd (zip ps flags)) \<and>
     map nb_participant (nonBuilders (fst (verify_loop c s e (v, q) ps)))
       = map nb_participant (nonBuilders v) @ map fst (filter (\<lambda>x. \<not> snd x) (zip ps flags))"
proof (induction ps arbitrary: v q)
  case Nil
  show ?case by simp
next
  case (Cons p ps)
  obtain r q' where r: "checkWalletActivity c q (wallet p) s e = (r, q')"
    by (cases "checkWalletActivity c q (wallet p) s e")
  show ?case
  proof (cases "isBuilder r")
    case True
    let ?v = "v\<lparr>builders := builders v @
                [\<lparr>b_participant = p, b_transactionCount = transactionCount r, b_firstTx = firstTx r\<rparr>]\<rparr>"
    from Cons.IH[of ?v q'] obtain flags where f: "length flags = length ps"
      "map b_participant (builders (fst (verify_loop c s e (?v, q') ps)))
         = map b_participant (builders ?v) @ map fst (filter snd (zip ps flags))"
      "map nb_participant (nonBuilders (fst (verify_loop c s e (?v, q') ps)))
         = map nb_participant (nonBuilders ?v) @ map fst (filter (\<lambda>x. \<not> snd x) (zip ps flags))"
      by blast
    show ?thesis
      by (rule exI[of _ "True # flags"]) (use r True f in simp)
  next
    case False
    let ?v = "v\<lparr>nonBuilders := nonBuilders v @
                [\<lparr>nb_participant = p,
                  nb_error = (case error r of None \<Rightarrow> None
                              | Some msg \<Rightarrow> if msg = [] then None else Some msg)\<rparr>]\<rparr>"
    from Cons.IH[of ?v q'] obtain flags where f: "length flags = length ps"
      "map b_participant (builders (fst (verify_loop c s e (?v, q') ps)))
         = map b_participant (builders ?v) @ map fst (filter snd (zip ps flags))"
      "map nb_participant (nonBuilders (fst (verify_loop c s e (?v, q') ps)))
         = map nb_participant (nonBuilders ?v) @ map fst (filter (\<lambda>x. \<not> snd x) (zip ps flags))"
      by blast
    show ?thesis
      by (rule exI[of _ "False # flags"]) (use r False f in simp)
  qed
qed

lemma verifyAllParticipants_classified:
  "\<exists>flags. classified ps flags (fst (verifyAllParticipants c q ps s e))"
  using verify_loop_flags[of ps c s e "\<lparr>builders = [], nonBuilders = []\<rparr>" q]
  by (simp add: classified_def verifyAllParticipants_def)

lemma classified_length:
  "length flags = length ps \<Longrightarrow>
     length (filter snd (zip ps flags)) + length (filter (\<lambda>x. \<not> snd x) (zip ps flags)) = length ps"
  using sum_length_filter_compl[of snd "zip ps flags"] by simp

lemma mset_filter_split:
  "mset (map f (filter P xs)) + mset (map f (filter (\<lambda>x. \<not> P x) xs)) = mset (map f xs)"
  by (induction xs) auto

lemma classified_mset:
  "length flags = length ps \<Longrightarrow>
     mset (map fst (filter snd (zip ps flags))) + mset (map fst (filter (\<lambda>x. \<not> snd x) (zip ps flags)))
       = mset ps"
proof -
  assume l: "length flags = length ps"
  have "mset (map fst (filter snd (zip ps flags))) + mset (map fst (filter (\<lambda>x. \<not> snd x) (zip ps flags)))
      = mset (map fst (zip ps flags))"
    by (rule mset_filter_split)
  also have "\<dots> = mset ps" using l by simp
  finally show ?thesis .
qed

lemma subseq_zip_filter:
  "length flags = length ps \<Longrightarrow> subseq (map fst (filter P (zip ps flags))) ps"
proof -
  assume l: "length flags = length ps"
  have "subseq (map fst (filter P (zip ps flags))) (map fst (zip ps flags))"
    by (intro subseq_map subseq_filter_left)
  then show ?thesis using l by simp
qed

text \<open>
  Claim C10. \<open>verifyAllParticipants\<close> partitions its input: there is one flag per input
  position such that the builders are the flagged participants and the non-builders the
  others, each in input order. So the two lists together hold every input participant
  once (as multisets), each list is a subsequence of the input, and their lengths add up
  to the number of input participants.
\<close>

theorem verifyAllParticipants_partition:
  "let v = fst (verifyAllParticipants c q ps s e) in
     (\<exists>flags. classified ps flags v) \<and>
     length (builders v) + length (nonBuilders v) = length ps \<and>
     mset (map b_participant (builders v)) + mset (map nb_participant (nonBuilders v)) = mset ps \<and>
     subseq (map b_participant (builders v)) ps \<and>
     subseq (map nb_participant (nonBuilders v)) ps"
proof -
  obtain flags where f: "classified ps flags (fst (verifyAllParticipants c q ps s e))"
    using verifyAllParticipants_classified by blast
  let ?v = "fst (verifyAllParticipants c q ps s e)"
  have l: "length flags = length ps" using f by (simp add: classified_def)
  have b: "map b_participant (builders ?v) = map fst (filter snd (zip ps flags))"
    and n: "map nb_participant (nonBuilders ?v) = map fst (filter (\<lambda>x. \<not> snd x) (zip ps flags))"
    using f by (simp_all add: classified_def)
  have 1: "length (builders ?v) + length (nonBuilders ?v) = length ps"
    using classified_length[OF l] arg_cong[OF b, of length] arg_cong[OF n, of length] by simp
  have 2: "mset (map b_participant (builders ?v)) + mset (map nb_participant (nonBuilders ?v)) = mset ps"
    unfolding b n by (rule classified_mset[OF l])
  have 3: "subseq (map b_participant (builders ?v)) ps" unfolding b by (rule subseq_zip_filter[OF l])
  have 4: "subseq (map nb_participant (nonBuilders ?v)) ps" unfolding n by (rule subseq_zip_filter[OF l])
  show ?thesis using f 1 2 3 4 by (auto simp: Let_def)
qed

theorem verifyAllParticipants_partition_witness:
  "map b_participant (builders (fst (verifyAllParticipants sample_ledger []
        [person ''Al'' address_A, person ''Bo'' address_B, person ''Cy'' address_C,
         person ''Di'' ''not a wallet''] tour_start tour_end)))
     = [person ''Al'' address_A, person ''Cy'' address_C]
   \<and> map nb_participant (nonBuilders (fst (verifyAllParticipants sample_ledger []
        [person ''Al'' address_A, person ''Bo'' address_B, person ''Cy'' address_C,
         person ''Di'' ''not a wallet''] tour_start tour_end)))
     = [person ''Bo'' address_B, person ''Di'' ''not a wallet'']
   \<and> length (builders (fst (verifyAllParticipants sample_ledger []
        [person ''Al'' address_A, person ''Bo'' address_B, person ''Cy'' address_C,
         person ''Di'' ''not a wallet''] tour_start tour_end)))
     + length (nonBuilders (fst (verifyAllParticipants sample_ledger []
        [person ''Al'' address_A, person ''Bo'' address_B, person ''Cy'' address_C,
         person ''Di'' ''not a wallet''] tour_start tour_end))) = 4"
proof -
  let ?ps = "[person ''Al'' address_A, person ''Bo'' address_B, person ''Cy'' address_C,
         person ''Di'' ''not a wallet'']"
  have b: "map b_participant (builders (fst (verifyAllParticipants sample_ledger [] ?ps tour_start tour_end)))
     = [person ''Al'' address_A, person ''Cy'' address_C]"
    by code_simp
  have n: "map nb_participant (nonBuilders (fst (verifyAllParticipants sample_ledger [] ?ps tour_start tour_end)))
     = [person ''Bo'' address_B, person ''Di'' ''not a wallet'']"
    by code_simp
  have l: "length (builders (fst (verifyAllParticipants sample_ledger [] ?ps tour_start tour_end)))
     + length (nonBuilders (fst (verifyAllParticipants sample_ledger [] ?ps tour_start tour_end))) = length ?ps"
    using verifyAllParticipants_partition[of sample_ledger "[]" ?ps tour_start tour_end]
    by (simp only: Let_def)
  show ?thesis using b n l by simp
qed

lemma invalid_address_result:
  "\<not> isValidSolanaAddress a \<Longrightarrow>
     checkWalletActivity c q a s e =
       (\<lparr>isBuilder = False, transactionCount = 0, firstTx = None, error = Some ''Invalid address''\<rparr>, q)"
  by (cases a) (simp_all add: checkWalletActivity_def no_activity_def)

lemma lookup_throws_result:
  "isValidSolanaAddress (Some w) \<Longrightarrow> lookup_throws c q w msg \<Longrightarrow>
     fst (checkWalletActivity c q (Some w) s e) =
       \<lparr>isBuilder = False, transactionCount = 0, firstTx = None, error = Some msg\<rparr>"
  by (auto simp: checkWalletActivity_def no_activity_def lookup_throws_def)

lemma verify_loop_append:
  "verify_loop c s e (v, q) (xs @ ys) = verify_loop c s e (verify_loop c s e (v, q) xs) ys"
proof (induction xs arbitrary: v q)
  case Nil
  show ?case by simp
next
  case (Cons x xs)
  show ?case
    by (cases "checkWalletActivity c q (wallet x) s e") (simp add: Cons.IH)
qed

lemma verify_loop_covers:
  "set ps \<subseteq> b_participant ` set (builders (fst (verify_loop c s e (v, q) ps)))
           \<union> nb_participant ` set (nonBuilders (fst (verify_loop c s e (v, q) ps)))"
proof -
  obtain flags where f: "length flags = length ps"
     "map b_participant (builders (fst (verify_loop c s e (v, q) ps)))
       = map b_participant (builders v) @ map fst (filter snd (zip ps flags))"
     "map nb_participant (nonBuilders (fst (verify_loop c s e (v, q) ps)))
       = map nb_participant (nonBuilders v) @ map fst (filter (\<lambda>x. \<not> snd x) (zip ps flags))"
    using verify_loop_flags[of ps c s e v q] by blast
  have "set ps = set (map fst (zip ps flags))" using f(1) by simp
  also have "\<dots> = set (map fst (filter snd (zip ps flags))) \<union> set (map fst (filter (\<lambda>x. \<not> snd x) (zip ps flags)))"
    by auto
  also have "\<dots> \<subseteq> set (map b_participant (builders (fst (verify_loop c s e (v, q) ps))))
             \<union> set (map nb_participant (nonBuilders (fst (verify_loop c s e (v, q) ps))))"
    unfolding f(2,3) by auto
  finally show ?thesis by simp
qed

lemma verify_loop_keeps:
  "set (map nb_participant (nonBuilders v))
     \<subseteq> set (map nb_participant (nonBuilders (fst (verify_loop c s e (v, q) ps))))"
proof -
  obtain flags where
     "map nb_participant (nonBuilders (fst (verify_loop c s e (v, q) ps)))
       = map nb_participant (nonBuilders v) @ map fst (filter (\<lambda>x. \<not> snd x) (zip ps flags))"
    using verify_loop_flags[of ps c s e v q] by blast
  then show ?thesis by (simp only: set_append) blast
qed

lemma failed_lookup_step:
  assumes w: "wallet p = Some w" and ok: "isValidSolanaAddress (Some w)"
    and th: "lookup_throws c q1 w msg"
    and pre: "verifyAllParticipants c q pre s e = (v1, q1)"
  shows "verifyAllParticipants c q (pre @ p # post) s e
           = verify_loop c s e
               (v1\<lparr>nonBuilders := nonBuilders v1 @
                     [\<lparr>nb_participant = p, nb_error = (if msg = [] then None else Some msg)\<rparr>]\<rparr>,
                snd (checkWalletActivity c q1 (Some w) s e)) post"
proof -
  obtain r q2 where r: "checkWalletActivity c q1 (Some w) s e = (r, q2)"
    by (cases "checkWalletActivity c q1 (Some w) s e")
  have rr: "r = \<lparr>isBuilder = False, transactionCount = 0, firstTx = None, error = Some msg\<rparr>"
    using lookup_throws_result[OF ok th, of s e] r by simp
  then have nb: "\<not> isBuilder r" by simp
  have "verifyAllParticipants c q (pre @ p # post) s e
          = verify_loop c s e (v1, q1) (p # post)"
    using pre by (simp add: verifyAllParticipants_def verify_loop_append)
  also have "\<dots> = verify_loop c s e
               (v1\<lparr>nonBuilders := nonBuilders v1 @
                     [\<lparr>nb_participant = p, nb_error = (if msg = [] then None else Some msg)\<rparr>]\<rparr>, q2) post"
    using r nb w rr by simp
  finally show ?thesis using r by simp
qed

lemma verify_loop_results:
  "builders (fst (verify_loop c s e (v, q) ps))
     = builders v @ map as_builder (filter (\<lambda>x. isBuilder (snd x)) (check_each c s e q ps))
   \<and> nonBuilders (fst (verify_loop c s e (v, q) ps))
     = nonBuilders v @ map as_nonBuilder (filter (\<lambda>x. \<not> isBuilder (snd x)) (check_each c s e q ps))"
proof (induction ps arbitrary: v q)
  case Nil
  show ?case by simp
next
  case (Cons p ps)
  obtain r q' where r: "checkWalletActivity c q (wallet p) s e = (r, q')"
    by (cases "checkWalletActivity c q (wallet p) s e")
  show ?case
    by (cases "isBuilder r") (simp_all add: r Cons.IH as_builder_def as_nonBuilder_def)
qed

text \<open>
  Claim C8. (1) An address that fails the format check gives \<open>isBuilder = false\<close>,
  \<open>transactionCount = 0\<close> and the error tag \<open>Invalid address\<close>, and the list of ledger
  queries is unchanged: the ledger is not asked. (2) When the lookup for a well-formed
  address throws, the error is caught and the result is \<open>isBuilder = false\<close>,
  \<open>transactionCount = 0\<close> with the error's message as the tag. (3) In a batch, a
  participant whose lookup throws is put in \<open>nonBuilders\<close> with that tag, right after the
  entries of the participants before it, and the loop goes on with the participants after
  it: each of them is checked by its own \<open>checkWalletActivity\<close> call, made after the
  failed one, and is put in \<open>builders\<close> with the count and first transaction of its
  result when the result says builder, and in \<open>nonBuilders\<close> with its error tag
  otherwise. So every participant after the failure is in one of the two output lists,
  and the lists together are as long as the input. (4) In every batch the two lists are
  the participants so classified by their own check results, in input order.
\<close>

theorem classifier_failure_semantics:
  "(\<not> isValidSolanaAddress a \<longrightarrow>
      checkWalletActivity c q a s e =
        (\<lparr>isBuilder = False, transactionCount = 0, firstTx = None, error = Some ''Invalid address''\<rparr>, q))
   \<and> (isValidSolanaAddress (Some w) \<and> lookup_throws c q w msg \<longrightarrow>
      fst (checkWalletActivity c q (Some w) s e) =
        \<lparr>isBuilder = False, transactionCount = 0, firstTx = None, error = Some msg\<rparr>)
   \<and> (wallet p = Some w \<and> isValidSolanaAddress (Some w) \<and>
      verifyAllParticipants c q pre s e = (v1, q1) \<and> lookup_throws c q1 w msg \<longrightarrow>
      (let out = fst (verifyAllParticipants c q (pre @ p # post) s e);
           failed = \<lparr>nb_participant = p, nb_error = (if msg = [] then None else Some msg)\<rparr>;
           q2 = snd (checkWalletActivity c q1 (Some w) s e);
           later = check_each c s e q2 post
       in
         p \<in> nb_participant ` set (nonBuilders out) \<and>
         set post \<subseteq> b_participant ` set (builders out) \<union> nb_participant ` set (nonBuilders out) \<and>
         length (builders out) + length (nonBuilders out) = length (pre @ p # post) \<and>
         verifyAllParticipants c q (pre @ p # post) s e
           = verify_loop c s e (v1\<lparr>nonBuilders := nonBuilders v1 @ [failed]\<rparr>, q2) post \<and>
         builders out = builders v1 @ map as_builder (filter (\<lambda>x. isBuilder (snd x)) later) \<and>
         nonBuilders out
           = nonBuilders v1 @ failed # map as_nonBuilder (filter (\<lambda>x. \<not> isBuilder (snd x)) later)))
   \<and> builders (fst (verifyAllParticipants c q ps s e))
       = map as_builder (filter (\<lambda>x. isBuilder (snd x)) (check_each c s e q ps))
   \<and> nonBuilders (fst (verifyAllParticipants c q ps s e))
       = map as_nonBuilder (filter (\<lambda>x. \<not> isBuilder (snd x)) (check_each c s e q ps))"
proof (intro conjI impI)
  assume "\<not> isValidSolanaAddress a"
  then show "checkWalletActivity c q a s e =
        (\<lparr>isBuilder = False, transactionCount = 0, firstTx = None, error = Some ''Invalid address''\<rparr>, q)"
    by (rule invalid_address_result)
next
  assume "isValidSolanaAddress (Some w) \<and> lookup_throws c q w msg"
  then show "fst (checkWalletActivity c q (Some w) s e) =
        \<lparr>isBuilder = False, transactionCount = 0, firstTx = None, error = Some msg\<rparr>"
    using lookup_throws_result by blast
next
  assume a: "wallet p = Some w \<and> isValidSolanaAddress (Some w) \<and>
      verifyAllParticipants c q pre s e = (v1, q1) \<and> lookup_throws c q1 w msg"
  let ?out = "fst (verifyAllParticipants c q (pre @ p # post) s e)"
  let ?failed = "\<lparr>nb_participant = p, nb_error = (if msg = [] then None else Some msg)\<rparr>"
  let ?q2 = "snd (checkWalletActivity c q1 (Some w) s e)"
  let ?later = "check_each c s e ?q2 post"
  let ?v = "v1\<lparr>nonBuilders := nonBuilders v1 @ [?failed]\<rparr>"
  have step: "verifyAllParticipants c q (pre @ p # post) s e = verify_loop c s e (?v, ?q2) post"
    using a failed_lookup_step[of p w c q1 msg q pre s e v1 post] by blast
  have 1: "p \<in> nb_participant ` set (nonBuilders ?out)"
    using verify_loop_keeps[of ?v c s e ?q2 post] unfolding step by auto
  have 2: "set post \<subseteq> b_participant ` set (builders ?out) \<union> nb_participant ` set (nonBuilders ?out)"
    unfolding step by (rule verify_loop_covers)
  obtain flags where "classified (pre @ p # post) flags ?out"
    using verifyAllParticipants_classified by blast
  then have l: "length flags = length (pre @ p # post)"
    and b: "map b_participant (builders ?out) = map fst (filter snd (zip (pre @ p # post) flags))"
    and n: "map nb_participant (nonBuilders ?out) = map fst (filter (\<lambda>x. \<not> snd x) (zip (pre @ p # post) flags))"
    by (simp_all add: classified_def)
  have 3: "length (builders ?out) + length (nonBuilders ?out) = length (pre @ p # post)"
    using classified_length[OF l] arg_cong[OF b, of length] arg_cong[OF n, of length] by simp
  have 4: "builders ?out = builders v1 @ map as_builder (filter (\<lambda>x. isBuilder (snd x)) ?later)"
    unfolding step using verify_loop_results[of c s e ?v ?q2 post] by simp
  have 5: "nonBuilders ?out
             = nonBuilders v1 @ ?failed # map as_nonBuilder (filter (\<lambda>x. \<not> isBuilder (snd x)) ?later)"
    unfolding step using verify_loop_results[of c s e ?v ?q2 post] by simp
  show "let out = ?out; failed = ?failed; q2 = ?q2; later = check_each c s e q2 post
        in
         p \<in> nb_participant ` set (nonBuilders out) \<and>
         set post \<subseteq> b_participant ` set (builders out) \<union> nb_participant ` set (nonBuilders out) \<and>
         length (builders out) + length (nonBuilders out) = length (pre @ p # post) \<and>
         verifyAllParticipants c q (pre @ p # post) s e
           = verify_loop c s e (v1\<lparr>nonBuilders := nonBuilders v1 @ [failed]\<rparr>, q2) post \<and>
         builders out = builders v1 @ map as_builder (filter (\<lambda>x. isBuilder (snd x)) later) \<and>
         nonBuilders out
           = nonBuilders v1 @ failed # map as_nonBuilder (filter (\<lambda>x. \<not> isBuilder (snd x)) later)"
    unfolding Let_def using 1 2 3 step 4 5 by (intro conjI)
next
  show "builders (fst (verifyAllParticipants c q ps s e))
       = map as_builder (filter (\<lambda>x. isBuilder (snd x)) (check_each c s e q ps))"
    using verify_loop_results[of c s e "\<lparr>builders = [], nonBuilders = []\<rparr>" q ps]
    by (simp add: verifyAllParticipants_def)
next
  show "nonBuilders (fst (verifyAllParticipants c q ps s e))
       = map as_nonBuilder (filter (\<lambda>x. \<not> isBuilder (snd x)) (check_each c s e q ps))"
    using verify_loop_results[of c s e "\<lparr>builders = [], nonBuilders = []\<rparr>" q ps]
    by (simp add: verifyAllParticipants_def)
qed

theorem classifier_failure_semantics_witness:
  "checkWalletActivity sample_ledger [] (Some ''not a wallet'') tour_start tour_end =
      (\<lparr>isBuilder = False, transactionCount = 0, firstTx = None, error = Some ''Invalid address''\<rparr>, [])
   \<and> fst (checkWalletActivity sample_ledger [] (Some address_B) tour_start tour_end) =
      \<lparr>isBuilder = False, transactionCount = 0, firstTx = None, error = Some ''429 Too Many Requests''\<rparr>
   \<and> person ''Bo'' address_B \<in> nb_participant ` set (nonBuilders (fst (verifyAllParticipants sample_ledger []
        [person ''Al'' address_A, person ''Bo'' address_B, person ''Cy'' address_C] tour_start tour_end)))
   \<and> length (builders (fst (verifyAllParticipants sample_ledger []
        [person ''Al'' address_A, person ''Bo'' address_B, person ''Cy'' address_C] tour_start tour_end)))
     + length (nonBuilders (fst (verifyAllParticipants sample_ledger []
        [person ''Al'' address_A, person ''Bo'' address_B, person ''Cy'' address_C] tour_start tour_end))) = 3
   \<and> map b_participant (builders (fst (verifyAllParticipants sample_ledger []
        [person ''Al'' address_A, person ''Bo'' address_B, person ''Cy'' address_C] tour_start tour_end)))
     = [person ''Al'' address_A, person ''Cy'' address_C]
   \<and> nonBuilders (fst (verifyAllParticipants sample_ledger []
        [person ''Al'' address_A, person ''Bo'' address_B, person ''Cy'' address_C] tour_start tour_end))
     = [\<lparr>nb_participant = person ''Bo'' address_B, nb_error = Some ''429 Too Many Requests''\<rparr>]"
proof -
  let ?out = "fst (verifyAllParticipants sample_ledger []
        [person ''Al'' address_A, person ''Bo'' address_B, person ''Cy'' address_C] tour_start tour_end)"
  have h1: "\<not> isValidSolanaAddress (Some ''not a wallet'')" by code_simp
  have h3: "lookup_throws sample_ledger q address_B ''429 Too Many Requests''" for q
    by (simp add: lookup_throws_def sample_ledger_def address_A_def address_B_def)
  obtain v1 q1 where h4:
    "verifyAllParticipants sample_ledger [] [person ''Al'' address_A] tour_start tour_end = (v1, q1)"
    by (cases "verifyAllParticipants sample_ledger [] [person ''Al'' address_A] tour_start tour_end")
  have w: "wallet (person ''Bo'' address_B) = Some address_B" by (simp add: person_def)
  have v: "map b_participant (builders v1) = [person ''Al'' address_A]" "nonBuilders v1 = []"
    "q1 = [address_A]"
  proof -
    have "map b_participant (builders (fst (verifyAllParticipants sample_ledger []
            [person ''Al'' address_A] tour_start tour_end))) = [person ''Al'' address_A]"
      by code_simp
    then show "map b_participant (builders v1) = [person ''Al'' address_A]" using h4 by simp
    have "nonBuilders (fst (verifyAllParticipants sample_ledger []
            [person ''Al'' address_A] tour_start tour_end)) = []"
      by code_simp
    then show "nonBuilders v1 = []" using h4 by simp
    have "snd (verifyAllParticipants sample_ledger []
            [person ''Al'' address_A] tour_start tour_end) = [address_A]"
      by code_simp
    then show "q1 = [address_A]" using h4 by simp
  qed
  have l: "map (\<lambda>x. (fst x, isBuilder (snd x)))
             (check_each sample_ledger tour_start tour_end
                (snd (checkWalletActivity sample_ledger [address_A] (Some address_B) tour_start tour_end))
                [person ''Cy'' address_C])
           = [(person ''Cy'' address_C, True)]"
    by code_simp
  note T = classifier_failure_semantics[where a = "Some ''not a wallet''" and c = sample_ledger
      and q = "[]" and s = tour_start and e = tour_end and w = address_B
      and msg = "''429 Too Many Requests''" and p = "person ''Bo'' address_B"
      and pre = "[person ''Al'' address_A]" and ?v1.0 = v1 and ?q1.0 = q1
      and post = "[person ''Cy'' address_C]" and ps = "[]"]
  have c1: "checkWalletActivity sample_ledger [] (Some ''not a wallet'') tour_start tour_end =
      (\<lparr>isBuilder = False, transactionCount = 0, firstTx = None, error = Some ''Invalid address''\<rparr>, [])"
    using T h1 by blast
  have c2: "fst (checkWalletActivity sample_ledger [] (Some address_B) tour_start tour_end) =
      \<lparr>isBuilder = False, transactionCount = 0, firstTx = None, error = Some ''429 Too Many Requests''\<rparr>"
    using T valid_B h3 by blast
  have hyp: "wallet (person ''Bo'' address_B) = Some address_B \<and> isValidSolanaAddress (Some address_B) \<and>
      verifyAllParticipants sample_ledger [] [person ''Al'' address_A] tour_start tour_end = (v1, q1) \<and>
      lookup_throws sample_ledger q1 address_B ''429 Too Many Requests''"
    using w valid_B h4 h3 by (intro conjI)
  note T3 = mp[OF T[THEN conjunct2, THEN conjunct2, THEN conjunct1] hyp, unfolded Let_def append_Cons append_Nil]
  have c3: "person ''Bo'' address_B \<in> nb_participant ` set (nonBuilders ?out)"
    by (rule T3[THEN conjunct1])
  have c4: "length (builders ?out) + length (nonBuilders ?out)
               = length [person ''Al'' address_A, person ''Bo'' address_B, person ''Cy'' address_C]"
    by (rule T3[THEN conjunct2, THEN conjunct2, THEN conjunct1])
  have c5: "builders ?out = builders v1 @ map as_builder (filter (\<lambda>x. isBuilder (snd x))
               (check_each sample_ledger tour_start tour_end
                 (snd (checkWalletActivity sample_ledger q1 (Some address_B) tour_start tour_end))
                 [person ''Cy'' address_C]))"
    by (rule T3[THEN conjunct2, THEN conjunct2, THEN conjunct2, THEN conjunct2, THEN conjunct1])
  have c6: "nonBuilders ?out = nonBuilders v1 @
               \<lparr>nb_participant = person ''Bo'' address_B,
                 nb_error = (if ''429 Too Many Requests'' = [] then None else Some ''429 Too Many Requests'')\<rparr> #
               map as_nonBuilder (filter (\<lambda>x. \<not> isBuilder (snd x))
               (check_each sample_ledger tour_start tour_end
                 (snd (checkWalletActivity sample_ledger q1 (Some address_B) tour_start tour_end))
                 [person ''Cy'' address_C]))"
    by (rule T3[THEN conjunct2, THEN conjunct2, THEN conjunct2, THEN conjunct2, THEN conjunct2])
  obtain r where r: "check_each sample_ledger tour_start tour_end
                 (snd (checkWalletActivity sample_ledger [address_A] (Some address_B) tour_start tour_end))
                 [person ''Cy'' address_C] = [(person ''Cy'' address_C, r)]" "isBuilder r"
    using l by (auto simp: map_eq_Cons_conv)
  have c5': "map b_participant (builders ?out) = [person ''Al'' address_A, person ''Cy'' address_C]"
    unfolding c5 v(3) r by (simp add: v(1) r(2) as_builder_def)
  have c6': "nonBuilders ?out
     = [\<lparr>nb_participant = person ''Bo'' address_B, nb_error = Some ''429 Too Many Requests''\<rparr>]"
    unfolding c6 v(3) r by (simp add: v(2) r(2))
  have c4': "length (builders ?out) + length (nonBuilders ?out) = 3" using c4 by simp
  show ?thesis using c1 c2 c3 c4' c5' c6' by (intro conjI)
qed

lemma in_window_counted: "in_window s e sg = counted s e sg"
proof (cases "blockTime sg")
  case None
  then show ?thesis by (simp add: in_window_def counted_def block_time_in_window_def)
next
  case (Some t)
  have a: "(of_int s :: rat) / 1000 \<le> of_int t \<longleftrightarrow> s \<le> 1000 * t"
  proof -
    have "(of_int s :: rat) / 1000 \<le> of_int t \<longleftrightarrow> (of_int s :: rat) \<le> of_int (1000 * t)"
      by (simp add: field_simps)
    then show ?thesis by (simp only: of_int_le_iff)
  qed
  have b: "(of_int t :: rat) \<le> of_int e / 1000 \<longleftrightarrow> 1000 * t \<le> e"
  proof -
    have "(of_int t :: rat) \<le> of_int e / 1000 \<longleftrightarrow> (of_int (1000 * t) :: rat) \<le> of_int e"
      by (simp add: field_simps)
    then show ?thesis by (simp only: of_int_le_iff)
  qed
  show ?thesis using Some a b by (simp add: in_window_def counted_def block_time_in_window_def Let_def)
qed

text \<open>
  Claim C7, amended. For a well-formed address whose fetched signature list is not
  empty, \<open>checkWalletActivity\<close> keeps the entries whose block time is present, is not
  \<open>0\<close> and lies in the closed window (both ends included); \<open>isBuilder\<close> says whether
  any entry is kept, \<open>transactionCount\<close> is their number, and \<open>firstTx\<close> is the signature
  of the last kept entry of the newest-first list, the oldest one. A wallet whose only
  transaction has a non-zero block time strictly inside the window is a builder with
  \<open>transactionCount = 1\<close>.
\<close>

theorem checkWalletActivity_window:
  assumes "isValidSolanaAddress (Some w)" and "publicKeyError c w = None"
    and "getSignaturesForAddress c q w = Returned (Some sigs)" and "sigs \<noteq> []"
  shows "fst (checkWalletActivity c q (Some w) s e) =
     (let rel = filter (counted s e) sigs
      in \<lparr>isBuilder = (length rel > 0), transactionCount = length rel,
          firstTx = (if rel = [] then None else Some (signature (last rel))),
          error = None\<rparr>)
   \<and> (sigs = [sg] \<and> blockTime sg = Some t \<and> t \<noteq> 0 \<and> s < 1000 * t \<and> 1000 * t < e \<longrightarrow>
        isBuilder (fst (checkWalletActivity c q (Some w) s e)) \<and>
        transactionCount (fst (checkWalletActivity c q (Some w) s e)) = 1)"
proof -
  have f: "filter (in_window s e) sigs = filter (counted s e) sigs"
    by (simp add: in_window_counted[abs_def])
  have 1: "fst (checkWalletActivity c q (Some w) s e) =
     (let rel = filter (counted s e) sigs
      in \<lparr>isBuilder = (length rel > 0), transactionCount = length rel,
          firstTx = (if rel = [] then None else Some (signature (last rel))),
          error = None\<rparr>)"
    using assms by (simp add: checkWalletActivity_def Let_def f last_conv_nth)
  have 2: "isBuilder (fst (checkWalletActivity c q (Some w) s e)) \<and>
        transactionCount (fst (checkWalletActivity c q (Some w) s e)) = 1"
    if "sigs = [sg] \<and> blockTime sg = Some t \<and> t \<noteq> 0 \<and> s < 1000 * t \<and> 1000 * t < e"
    unfolding 1 using that by (simp add: counted_def block_time_in_window_def)
  show ?thesis using 1 2 by blast
qed

theorem checkWalletActivity_window_witness:
  "fst (checkWalletActivity sample_ledger [] (Some address_A) tour_start tour_end) =
     \<lparr>isBuilder = True, transactionCount = 2, firstTx = Some ''sigJune'', error = None\<rparr>
   \<and> isBuilder (fst (checkWalletActivity sample_ledger [] (Some address_C) tour_start tour_end))
   \<and> transactionCount (fst (checkWalletActivity sample_ledger [] (Some address_C) tour_start tour_end)) = 1"
proof -
  have f: "filter (counted tour_start tour_end) sample_signatures =
      [\<lparr>signature = ''sigSeptember'', blockTime = Some 1756684800\<rparr>,
       \<lparr>signature = ''sigJune'', blockTime = Some 1749945600\<rparr>]"
    by (simp add: sample_signatures_def counted_def block_time_in_window_def tour_start_def tour_end_def)
  have g: "getSignaturesForAddress sample_ledger [] address_A = Returned (Some sample_signatures)"
    by (simp add: sample_ledger_def)
  have p: "publicKeyError sample_ledger a = None" for a by (simp add: sample_ledger_def)
  have ne: "sample_signatures \<noteq> []" by (simp add: sample_signatures_def)
  have 1: "fst (checkWalletActivity sample_ledger [] (Some address_A) tour_start tour_end) =
     \<lparr>isBuilder = True, transactionCount = 2, firstTx = Some ''sigJune'', error = None\<rparr>"
    using conjunct1[OF checkWalletActivity_window[OF valid_A p g ne, of tour_start tour_end]]
    unfolding f Let_def by simp
  let ?sg = "\<lparr>signature = ''sigOnly'', blockTime = Some 1749945600\<rparr>"
  have gc: "getSignaturesForAddress sample_ledger [] address_C = Returned (Some [?sg])"
    by (simp add: sample_ledger_def address_A_def address_B_def address_C_def)
  have nc: "[?sg] \<noteq> []" by simp
  have sc: "[?sg] = [?sg] \<and> blockTime ?sg = Some 1749945600 \<and> (1749945600 :: int) \<noteq> 0 \<and>
            tour_start < 1000 * 1749945600 \<and> 1000 * 1749945600 < tour_end"
    by (simp add: tour_start_def tour_end_def)
  have 2: "isBuilder (fst (checkWalletActivity sample_ledger [] (Some address_C) tour_start tour_end)) \<and>
        transactionCount (fst (checkWalletActivity sample_ledger [] (Some address_C) tour_start tour_end)) = 1"
    using conjunct2[OF checkWalletActivity_window[OF valid_C p gc nc, of tour_start tour_end ?sg 1749945600]] sc
    by (rule mp)
  show ?thesis using 1 2 by (intro conjI) simp_all
qed

text \<open>
  The claim as written counts every entry whose block time lies in the window. An entry
  with block time \<open>0\<close> lies in the window from \<open>-1\<close> s to \<open>1\<close> s and is not counted.
\<close>

theorem checkWalletActivity_epoch_counterexample:
  "length (filter (block_time_in_window (- 1000) 1000) [\<lparr>signature = ''sigEpoch'', blockTime = Some 0\<rparr>]) = 1
   \<and> fst (checkWalletActivity epoch_ledger [] (Some address_A) (- 1000) 1000) =
       \<lparr>isBuilder = False, transactionCount = 0, firstTx = None, error = None\<rparr>"
proof -
  have "fst (checkWalletActivity epoch_ledger [] (Some address_A) (- 1000) 1000) =
       \<lparr>isBuilder = False, transactionCount = 0, firstTx = None, error = None\<rparr>"
    using valid_A by (simp add: checkWalletActivity_def epoch_ledger_def in_window_def)
  then show ?thesis by (simp add: block_time_in_window_def)
qed

subsection \<open>Matching registrations to wallets\<close>

lemma best_scan_fold:
  "snd (best_scan used n (bm, bs) wbn) = fold max (unconsumed_scores used n wbn) bs"
proof (induction wbn arbitrary: bm bs)
  case Nil
  show ?case by (simp add: unconsumed_scores_def)
next
  case (Cons kw wbn)
  obtain k w where kw: "kw = (k, w)" by (cases kw)
  show ?case
  proof (cases "w_wallet w \<in> used")
    case True
    then show ?thesis using Cons.IH[of bm bs] kw by (simp add: unconsumed_scores_def)
  next
    case False
    show ?thesis
    proof (cases "similarity n k > bs")
      case True
      then have "max (similarity n k) bs = similarity n k" by simp
      then show ?thesis using Cons.IH[of "Some w" "similarity n k"] kw False True
        by (simp add: unconsumed_scores_def Let_def)
    next
      case F: False
      then have "max (similarity n k) bs = bs" by simp
      then show ?thesis using Cons.IH[of bm bs] kw False F
        by (simp add: unconsumed_scores_def Let_def)
    qed
  qed
qed

lemma best_scan_score: "snd (best_scan used n (None, 0) wbn) = best_score used n wbn"
  unfolding best_score_def best_scan_fold by (simp only: Max.set_eq_fold)

lemma best_scan_entry:
  "best_scan used n (bm, bs) wbn = (bm', bs') \<Longrightarrow>
     (bm' = bm \<and> bs' = bs) \<or>
     (\<exists>k w. (k, w) \<in> set wbn \<and> w_wallet w \<notin> used \<and> bm' = Some w \<and> similarity n k = bs')"
proof (induction wbn arbitrary: bm bs)
  case Nil
  then show ?case by simp
next
  case (Cons kw wbn)
  obtain k w where kw: "kw = (k, w)" by (cases kw)
  show ?case
  proof (cases "w_wallet w \<in> used")
    case True
    then have "best_scan used n (bm, bs) wbn = (bm', bs')" using Cons.prems kw by simp
    from Cons.IH[OF this] show ?thesis by auto
  next
    case False
    show ?thesis
    proof (cases "similarity n k > bs")
      case True
      then have "best_scan used n (Some w, similarity n k) wbn = (bm', bs')"
        using Cons.prems kw False by (simp add: Let_def)
      from Cons.IH[OF this] show ?thesis using kw False by auto
    next
      case F: False
      then have "best_scan used n (bm, bs) wbn = (bm', bs')"
        using Cons.prems kw False by (simp add: Let_def)
      from Cons.IH[OF this] show ?thesis by auto
    qed
  qed
qed

lemma best_scan_positive:
  assumes "0 < best_score used n wbn"
  shows "\<exists>k w. (k, w) \<in> set wbn \<and> w_wallet w \<notin> used \<and> similarity n k = best_score used n wbn \<and>
           best_scan used n (None, 0) wbn = (Some w, best_score used n wbn)"
proof -
  obtain bm' bs' where r: "best_scan used n (None, 0) wbn = (bm', bs')"
    by (cases "best_scan used n (None, 0) wbn")
  have s: "bs' = best_score used n wbn" using best_scan_score[of used n wbn] r by simp
  from best_scan_entry[OF r] assms s show ?thesis using r by auto
qed

lemma review_step:
  assumes "map_of wbn (r_normalizedName reg) = None"
    and "7 / 10 \<le> best_score (usedWallets st) (r_normalizedName reg) wbn"
    and "best_score (usedWallets st) (r_normalizedName reg) wbn < 85 / 100"
  shows "\<exists>k w. (k, w) \<in> set wbn \<and> w_wallet w \<notin> usedWallets st \<and>
           similarity (r_normalizedName reg) k = best_score (usedWallets st) (r_normalizedName reg) wbn \<and>
           match_step wbn (e, reg) st =
             st\<lparr>reviewNeeded := reviewNeeded st @
                  [review_candidate e reg w (best_score (usedWallets st) (r_normalizedName reg) wbn)]\<rparr>"
proof -
  let ?b = "best_score (usedWallets st) (r_normalizedName reg) wbn"
  have "0 < ?b" using assms(2) by simp
  from best_scan_positive[OF this] obtain k w where kw: "(k, w) \<in> set wbn" "w_wallet w \<notin> usedWallets st"
    "similarity (r_normalizedName reg) k = ?b"
    "best_scan (usedWallets st) (r_normalizedName reg) (None, 0) wbn = (Some w, ?b)"
    by blast
  have "match_step wbn (e, reg) st = st\<lparr>reviewNeeded := reviewNeeded st @ [review_candidate e reg w ?b]\<rparr>"
    using assms kw(4)
    by (simp add: match_step_def FUZZY_THRESHOLD_def push_review_def review_candidate_def)
  then show ?thesis using kw(1,2,3) by blast
qed

lemma match_step_emails:
  "m_email ` set (matched (match_step wbn er st)) \<subseteq> insert (fst er) (m_email ` set (matched st))"
  by (auto simp: match_step_def push_matched_def push_review_def push_missing_def Let_def
      split: option.splits prod.splits)

lemma fold_match_emails:
  "m_email ` set (matched (fold (match_step wbn) regs st)) \<subseteq> m_email ` set (matched st) \<union> fst ` set regs"
proof (induction regs arbitrary: st)
  case Nil
  show ?case by simp
next
  case (Cons er regs)
  show ?case using Cons.IH[of "match_step wbn er st"] match_step_emails[of wbn er st]
    by auto
qed

lemma match_step_review_kept:
  "set (reviewNeeded st) \<subseteq> set (reviewNeeded (match_step wbn er st))"
  by (auto simp: match_step_def push_matched_def push_review_def push_missing_def Let_def
      split: option.splits prod.splits)

lemma fold_match_review_kept:
  "set (reviewNeeded st) \<subseteq> set (reviewNeeded (fold (match_step wbn) regs st))"
proof (induction regs arbitrary: st)
  case Nil
  show ?case by simp
next
  case (Cons er regs)
  show ?case using Cons.IH[of "match_step wbn er st"] match_step_review_kept[of st wbn er]
    by auto
qed

text \<open>
  Claim C6, amended. The fuzzy scan reads the lookup table \<open>walletsByName\<close>, which has
  one entry per canonical name, holding the first wallet record of that name; a wallet
  record shadowed by an earlier record of the same canonical name is never a candidate.
  Take a registration with no exact canonical-name match whose best similarity score over
  the entries of this table whose wallet is not yet consumed is at least \<open>0.70\<close> and below
  \<open>0.85\<close>. Its turn of the loop appends one review entry, for such an entry with
  that best score, and changes nothing else: the Participant list and the set of consumed
  wallets stay as they were. Over the whole run (each email is processed once) the
  registration is in the review list and no Participant carries its email. The names
  \<open>Jon Smyth\<close> and \<open>John Smith\<close> are at distance 2 and the longer has 10 characters: the
  score is \<open>1 - 2/10 = 0.8\<close>, inside the review band.
\<close>

theorem review_band:
  assumes "map_of wbn (r_normalizedName reg) = None"
    and "st = fold (match_step wbn) pre initial_state"
    and "7 / 10 \<le> best_score (usedWallets st) (r_normalizedName reg) wbn"
    and "best_score (usedWallets st) (r_normalizedName reg) wbn < 85 / 100"
    and "e \<notin> fst ` set pre" and "e \<notin> fst ` set post"
  shows "(\<exists>k w. (k, w) \<in> set wbn \<and> w_wallet w \<notin> usedWallets st \<and>
            similarity (r_normalizedName reg) k = best_score (usedWallets st) (r_normalizedName reg) wbn \<and>
            match_step wbn (e, reg) st =
              st\<lparr>reviewNeeded := reviewNeeded st @
                   [review_candidate e reg w (best_score (usedWallets st) (r_normalizedName reg) wbn)]\<rparr>)
     \<and> matched (match_step wbn (e, reg) st) = matched st
     \<and> usedWallets (match_step wbn (e, reg) st) = usedWallets st
     \<and> e \<in> lumaEmail ` set (reviewNeeded (match_all wbn (pre @ (e, reg) # post)))
     \<and> e \<notin> m_email ` set (matched (match_all wbn (pre @ (e, reg) # post)))
     \<and> distance (normalizeName (Some ''Jon Smyth'')) (normalizeName (Some ''John Smith'')) = 2
     \<and> similarity (normalizeName (Some ''Jon Smyth'')) (normalizeName (Some ''John Smith'')) = 1 - 2 / 10"
proof -
  let ?b = "best_score (usedWallets st) (r_normalizedName reg) wbn"
  let ?st' = "match_step wbn (e, reg) st"
  from review_step[OF assms(1,3,4), of e] obtain k w where kw:
    "(k, w) \<in> set wbn" "w_wallet w \<notin> usedWallets st" "similarity (r_normalizedName reg) k = ?b"
    "?st' = st\<lparr>reviewNeeded := reviewNeeded st @ [review_candidate e reg w ?b]\<rparr>"
    by (elim exE conjE)
  have 1: "\<exists>k w. (k, w) \<in> set wbn \<and> w_wallet w \<notin> usedWallets st \<and>
            similarity (r_normalizedName reg) k = ?b \<and>
            ?st' = st\<lparr>reviewNeeded := reviewNeeded st @ [review_candidate e reg w ?b]\<rparr>"
    using kw by (intro exI[of _ k] exI[of _ w]) simp
  have 2: "matched ?st' = matched st" and 3: "usedWallets ?st' = usedWallets st"
    unfolding kw(4) by simp_all
  have run: "match_all wbn (pre @ (e, reg) # post) = fold (match_step wbn) post ?st'"
    using assms(2) by (simp add: match_all_def)
  have "review_candidate e reg w ?b \<in> set (reviewNeeded ?st')" unfolding kw(4) by simp
  then have "review_candidate e reg w ?b \<in> set (reviewNeeded (match_all wbn (pre @ (e, reg) # post)))"
    unfolding run using fold_match_review_kept[of ?st' wbn post] by (rule set_mp[rotated])
  moreover have "lumaEmail (review_candidate e reg w ?b) = e" by (simp add: review_candidate_def)
  ultimately have 4: "e \<in> lumaEmail ` set (reviewNeeded (match_all wbn (pre @ (e, reg) # post)))"
    by (metis imageI)
  have "m_email ` set (matched st) \<subseteq> m_email ` set (matched initial_state) \<union> fst ` set pre"
    unfolding assms(2) by (rule fold_match_emails)
  then have a: "e \<notin> m_email ` set (matched st)"
    using assms(5) by (auto simp: initial_state_def)
  have "m_email ` set (matched (fold (match_step wbn) post ?st')) \<subseteq> m_email ` set (matched ?st') \<union> fst ` set post"
    by (rule fold_match_emails)
  then have 5: "e \<notin> m_email ` set (matched (match_all wbn (pre @ (e, reg) # post)))"
    unfolding run 2 using a assms(6) by (meson UnE subsetD)
  have 6: "distance (normalizeName (Some ''Jon Smyth'')) (normalizeName (Some ''John Smith'')) = 2"
    by code_simp
  have 7: "similarity (normalizeName (Some ''Jon Smyth'')) (normalizeName (Some ''John Smith'')) = 1 - 2 / 10"
    by code_simp
  show ?thesis using 1 2 3 4 5 6 7 by (intro conjI)
qed

theorem review_band_witness:
  "reviewNeeded (match_all [(''john smith'', john_smith)] [(''jon@example.com'', jon_smyth)])
     = [review_candidate ''jon@example.com'' jon_smyth john_smith (4 / 5)]
   \<and> matched (match_all [(''john smith'', john_smith)] [(''jon@example.com'', jon_smyth)]) = []
   \<and> ''jon@example.com'' \<in> lumaEmail ` set (reviewNeeded
         (match_all [(''john smith'', john_smith)] ([] @ (''jon@example.com'', jon_smyth) # [])))
   \<and> ''jon@example.com'' \<notin> m_email ` set (matched
         (match_all [(''john smith'', john_smith)] ([] @ (''jon@example.com'', jon_smyth) # [])))"
proof -
  have h1: "map_of [(''john smith'', john_smith)] (r_normalizedName jon_smyth) = None"
    by code_simp
  have h2: "initial_state = fold (match_step [(''john smith'', john_smith)]) [] initial_state"
    by simp
  have b: "best_score (usedWallets initial_state) (r_normalizedName jon_smyth)
             [(''john smith'', john_smith)] = 4 / 5"
    by code_simp
  have h3: "7 / 10 \<le> best_score (usedWallets initial_state) (r_normalizedName jon_smyth)
             [(''john smith'', john_smith)]"
    and h4: "best_score (usedWallets initial_state) (r_normalizedName jon_smyth)
             [(''john smith'', john_smith)] < 85 / 100"
    unfolding b by simp_all
  have h5: "''jon@example.com'' \<notin> fst ` set ([] :: (string \<times> registration) list)" by simp
  note T = review_band[OF h1 h2 h3 h4 h5 h5]
  have r: "reviewNeeded (match_all [(''john smith'', john_smith)] [(''jon@example.com'', jon_smyth)])
     = [review_candidate ''jon@example.com'' jon_smyth john_smith (4 / 5)]"
    by code_simp
  have m: "matched (match_all [(''john smith'', john_smith)] [(''jon@example.com'', jon_smyth)]) = []"
    by code_simp
  show ?thesis using T r m by (elim conjE) (intro conjI, assumption+)
qed

text \<open>
  The claim as written gives the two names the score \<open>1 - 2/9\<close>. The divisor is the
  length of the longer name, which is 10. The claim as written also takes the best score
  over the unconsumed wallets. With the wallet records \<open>John Smith\<close> and \<open>JOHN SMITH\<close>
  (two addresses, one canonical name) and the registrations \<open>John Smith\<close> and
  \<open>Jon Smyth\<close>, the first registration consumes the first wallet by exact match; the
  second wallet is not consumed and its name scores \<open>0.8\<close> against \<open>Jon Smyth\<close>, but the
  lookup table holds only the first record: no review entry is emitted, and the
  registration goes to the list of missing wallets.
\<close>

theorem review_band_score_counterexample:
  "similarity (normalizeName (Some ''Jon Smyth'')) (normalizeName (Some ''John Smith'')) \<noteq> 1 - 2 / 9
   \<and> length (normalizeName (Some ''Jon Smyth'')) = 9
   \<and> length (normalizeName (Some ''John Smith'')) = 10
   \<and> map w_wallet (fst (load_wallets ([], []) (parseCSV shadowed_wallets_csv))) = [address_A, address_B]
   \<and> map (w_wallet \<circ> snd) (snd (load_wallets ([], []) (parseCSV shadowed_wallets_csv))) = [address_A]
   \<and> map m_wallet (matched (consolidate shadowed_wallets_csv [(''UNILAG'', smith_smyth_csv)])) = [address_A]
   \<and> address_B \<notin> usedWallets (consolidate shadowed_wallets_csv [(''UNILAG'', smith_smyth_csv)])
   \<and> similarity (normalizeName (Some ''Jon Smyth'')) (normalizeName (Some ''JOHN SMITH'')) = 4 / 5
   \<and> reviewNeeded (consolidate shadowed_wallets_csv [(''UNILAG'', smith_smyth_csv)]) = []
   \<and> map ms_email (missingWallets (consolidate shadowed_wallets_csv [(''UNILAG'', smith_smyth_csv)]))
       = [''jon@y.org'']"
  by code_simp

text \<open>
  Claim C1 says that no two Participants the matcher emits share a wallet address, the
  exact-lookup path emitting one only for a wallet not yet consumed. The program does
  not keep it: the exact-lookup branch never consults the set of consumed wallets (the
  fuzzy loop does), so two registrations with different emails and the same canonical
  name both get the wallet of that name. On the sample files the Participant list has
  two entries with the same wallet address.
\<close>

theorem exact_match_reuses_wallet:
  "map m_wallet (matched (consolidate wallets_csv [(''UNILAG'', luma_csv)])) = [address_A, address_A]
   \<and> map m_email (matched (consolidate wallets_csv [(''UNILAG'', luma_csv)])) = [''jane@x.com'', ''jdoe@y.org'']
   \<and> map m_matchMethod (matched (consolidate wallets_csv [(''UNILAG'', luma_csv)])) = [''exact'', ''exact'']
   \<and> \<not> distinct (map m_wallet (matched (consolidate wallets_csv [(''UNILAG'', luma_csv)])))"
  by code_simp

subsection \<open>Name normalisation\<close>

lemma is_space_space: "is_space CHR '' ''"
  by (simp add: is_space_def code_def)

lemma code_lower_char:
  "code (lower_char c) =
     (if (65 \<le> code c \<and> code c \<le> 90) \<or> (192 \<le> code c \<and> code c \<le> 222 \<and> code c \<noteq> 215)
      then code c + 32 else code c)"
proof -
  have "code c < 256" unfolding code_def by (rule nat_of_char_less_256)
  then show ?thesis by (simp add: lower_char_def code_def)
qed

lemma lower_char_letter: "latin_letter c \<Longrightarrow> in_range CHR ''a'' CHR ''z'' (lower_char c)"
proof -
  assume "latin_letter c"
  then have "(65 \<le> code c \<and> code c \<le> 90) \<or> (97 \<le> code c \<and> code c \<le> 122)"
    by (simp add: latin_letter_def in_range_def code_def)
  then have "97 \<le> code (lower_char c) \<and> code (lower_char c) \<le> 122"
    unfolding code_lower_char by auto
  then show ?thesis by (simp add: in_range_def code_def)
qed

lemma lower_char_space: "is_space c \<Longrightarrow> is_space (lower_char c)"
  unfolding is_space_def code_lower_char by auto

lemma letter_not_space: "in_range CHR ''a'' CHR ''z'' c \<Longrightarrow> \<not> is_space c"
  by (simp add: in_range_def is_space_def code_def)

lemma collapse_spaces_chars:
  "c \<in> set (collapse_spaces s) \<Longrightarrow> (c \<in> set s \<and> \<not> is_space c) \<or> c = CHR '' ''"
proof (induction s rule: collapse_spaces.induct)
  case 1
  then show ?case by simp
next
  case (2 a cs)
  show ?case
  proof (cases "is_space a")
    case True
    with 2 show ?thesis by (auto dest: set_dropWhileD)
  next
    case False
    with 2 show ?thesis by auto
  qed
qed

lemma collapse_spaces_hd:
  "s \<noteq> [] \<Longrightarrow> \<not> is_space (hd s) \<Longrightarrow> collapse_spaces s \<noteq> [] \<and> hd (collapse_spaces s) = hd s"
  by (cases s) simp_all

lemma dropWhile_hd_not: "dropWhile P xs \<noteq> [] \<Longrightarrow> \<not> P (hd (dropWhile P xs))"
  by (metis hd_dropWhile)

lemma collapse_spaces_no_double: "\<not> has_double_space (collapse_spaces s)"
proof (induction s rule: collapse_spaces.induct)
  case 1
  show ?case by simp
next
  case (2 a cs)
  show ?case
  proof (cases "is_space a")
    case True
    let ?d = "dropWhile is_space cs"
    show ?thesis
    proof (cases "?d = []")
      case True
      have "collapse_spaces (a # cs) = CHR '' '' # collapse_spaces ?d"
        using \<open>is_space a\<close> by simp
      then have "collapse_spaces (a # cs) = [CHR '' '']" unfolding True by simp
      then show ?thesis by simp
    next
      case False
      then have h: "\<not> is_space (hd ?d)" by (rule dropWhile_hd_not)
      from collapse_spaces_hd[OF False h] obtain x xs where x: "collapse_spaces ?d = x # xs" "x = hd ?d"
        by (cases "collapse_spaces ?d") auto
      then have "x \<noteq> CHR '' ''" using h is_space_space by auto
      then show ?thesis using \<open>is_space a\<close> 2(1) x by simp
    qed
  next
    case False
    then have "a \<noteq> CHR '' ''" using is_space_space by auto
    then show ?thesis using False 2(2) by (cases "collapse_spaces cs") simp_all
  qed
qed

lemma dropWhile_last:
  "cs \<noteq> [] \<Longrightarrow> \<not> P (last cs) \<Longrightarrow> dropWhile P cs \<noteq> [] \<and> last (dropWhile P cs) = last cs"
  by (induction cs) auto

lemma collapse_spaces_last:
  "s \<noteq> [] \<Longrightarrow> \<not> is_space (last s) \<Longrightarrow> collapse_spaces s \<noteq> [] \<and> last (collapse_spaces s) = last s"
proof (induction s rule: collapse_spaces.induct)
  case 1
  then show ?case by simp
next
  case (2 a cs)
  show ?case
  proof (cases "cs = []")
    case True
    then show ?thesis using 2(3,4) by simp
  next
    case False
    then have l: "\<not> is_space (last cs)" using 2(4) by simp
    show ?thesis
    proof (cases "is_space a")
      case True
      from dropWhile_last[of cs is_space, OF False l] have d: "dropWhile is_space cs \<noteq> []"
        "last (dropWhile is_space cs) = last cs" by simp_all
      from 2(1)[OF True d(1)] d(2) l
      have "collapse_spaces (dropWhile is_space cs) \<noteq> []"
        "last (collapse_spaces (dropWhile is_space cs)) = last cs" by simp_all
      then show ?thesis using True False by simp
    next
      case F: False
      from 2(2)[OF F False l] show ?thesis using F False by simp
    qed
  qed
qed

lemma trimEnd_nonempty: "trimEnd t \<noteq> [] \<Longrightarrow> t \<noteq> []"
  by (auto simp: trimEnd_def)

lemma trim_no_surrounding: "\<not> surrounding_space (trim s)"
proof -
  let ?t = "dropWhile is_space s"
  have a: "trimEnd ?t \<noteq> [] \<Longrightarrow> \<not> is_space (last (trimEnd ?t))"
  proof -
    assume n: "trimEnd ?t \<noteq> []"
    then have "dropWhile is_space (rev ?t) \<noteq> []" by (simp add: trimEnd_def)
    then have "\<not> is_space (hd (dropWhile is_space (rev ?t)))" by (rule dropWhile_hd_not)
    then show ?thesis using n by (simp add: trimEnd_def last_rev)
  qed
  have b: "trimEnd ?t \<noteq> [] \<Longrightarrow> \<not> is_space (hd (trimEnd ?t))"
  proof -
    assume n: "trimEnd ?t \<noteq> []"
    then have tn: "?t \<noteq> []" by (rule trimEnd_nonempty)
    then have h: "\<not> is_space (hd ?t)" by (rule dropWhile_hd_not)
    obtain x xs where x: "?t = x # xs" using tn by (cases ?t) auto
    have "trimEnd (x # xs) = x # trimEnd xs"
    proof -
      have "dropWhile is_space (rev xs @ [x]) = dropWhile is_space (rev xs) @ [x]"
        using h x by (simp add: dropWhile_append)
      then show ?thesis by (simp add: trimEnd_def)
    qed
    then show ?thesis using h x by simp
  qed
  show ?thesis using a b unfolding surrounding_space_def trim_def trimStart_def by blast
qed

lemma set_trim: "set (trim s) \<subseteq> set s"
proof -
  have "set (trimEnd t) \<subseteq> set t" for t
    unfolding trimEnd_def using set_dropWhileD[of _ is_space "rev t"] by auto
  moreover have "set (trimStart s) \<subseteq> set s"
    unfolding trimStart_def using set_dropWhileD[of _ is_space s] by auto
  ultimately show ?thesis unfolding trim_def by blast
qed

lemma collapse_no_surrounding:
  assumes "\<not> surrounding_space t"
  shows "\<not> surrounding_space (collapse_spaces t)"
proof (cases "t = []")
  case True
  then show ?thesis by (simp add: surrounding_space_def)
next
  case False
  then have h: "\<not> is_space (hd t)" and l: "\<not> is_space (last t)"
    using assms by (simp_all add: surrounding_space_def)
  from collapse_spaces_hd[OF False h] collapse_spaces_last[OF False l] h l
  show ?thesis by (simp add: surrounding_space_def)
qed

lemma normalizeName_chars:
  "c \<in> set (normalizeName nm) \<Longrightarrow> in_range CHR ''a'' CHR ''z'' c \<or> c = CHR '' ''"
proof (cases nm)
  case None
  assume "c \<in> set (normalizeName nm)"
  then show ?thesis using None by (simp add: normalizeName_def)
next
  case (Some s)
  assume c: "c \<in> set (normalizeName nm)"
  show ?thesis
  proof (cases "s = []")
    case True
    then show ?thesis using c Some by (simp add: normalizeName_def)
  next
    case False
    then have "c \<in> set (filter alpha_or_space (collapse_spaces (trim (toLowerCase s))))"
      using c Some by (simp add: normalizeName_def)
    then have a: "alpha_or_space c" and "c \<in> set (collapse_spaces (trim (toLowerCase s)))"
      by simp_all
    from collapse_spaces_chars[OF this(2)] have "\<not> is_space c \<or> c = CHR '' ''" by blast
    then show ?thesis using a by (auto simp: alpha_or_space_def)
  qed
qed

lemma normalizeName_letters_only:
  assumes "\<forall>c\<in>set s. latin_letter c \<or> is_space c"
  shows "\<not> surrounding_space (normalizeName (Some s)) \<and> \<not> has_double_space (normalizeName (Some s))"
proof (cases "s = []")
  case True
  then show ?thesis by (simp add: normalizeName_def surrounding_space_def)
next
  case False
  let ?t = "trim (toLowerCase s)"
  let ?u = "collapse_spaces ?t"
  have low: "\<forall>c\<in>set (toLowerCase s). in_range CHR ''a'' CHR ''z'' c \<or> is_space c"
    using assms lower_char_letter lower_char_space by (auto simp: toLowerCase_def)
  then have t: "\<forall>c\<in>set ?t. in_range CHR ''a'' CHR ''z'' c \<or> is_space c"
    using set_trim[of "toLowerCase s"] by blast
  have "\<forall>c\<in>set ?u. alpha_or_space c"
  proof
    fix c assume "c \<in> set ?u"
    from collapse_spaces_chars[OF this] t show "alpha_or_space c"
      using is_space_space by (auto simp: alpha_or_space_def)
  qed
  then have "filter alpha_or_space ?u = ?u" by simp
  then have n: "normalizeName (Some s) = ?u" using False by (simp add: normalizeName_def)
  show ?thesis unfolding n
    using collapse_no_surrounding[OF trim_no_surrounding] collapse_spaces_no_double by blast
qed

text \<open>
  What holds of every result: it is made of lower-case Latin letters and spaces, and it
  is empty for an absent or empty name. A name of Latin letters and whitespace only
  comes out without whitespace at its start or end and without two consecutive spaces.
\<close>

lemma normalizeName_shape:
  "(\<forall>c\<in>set (normalizeName nm). in_range CHR ''a'' CHR ''z'' c \<or> c = CHR '' '')
   \<and> normalizeName None = [] \<and> normalizeName (Some []) = []
   \<and> ((\<forall>c\<in>set s. latin_letter c \<or> is_space c) \<longrightarrow>
        \<not> surrounding_space (normalizeName (Some s)) \<and> \<not> has_double_space (normalizeName (Some s)))"
  using normalizeName_chars[of _ nm] normalizeName_letters_only[of s]
  by (simp add: normalizeName_def)

text \<open>
  Claim C4 says that for every input \<open>normalizeName\<close> returns lower-case Latin letters
  and spaces only, with no whitespace at its start or end and no two consecutive spaces,
  even when removed characters such as digits or punctuation sat between spaces. The
  program does not keep the part on spaces: it trims and collapses the whitespace runs
  (its step \<open>Normalize whitespace\<close>) before it removes the other characters, so the
  spaces on both sides of a removed character stay. The name \<open>a 1 b\<close> becomes \<open>a\<close>, two
  spaces, \<open>b\<close>, and \<open>1 a\<close> becomes a space followed by \<open>a\<close>.
\<close>

theorem normalizeName_leaves_spaces:
  "normalizeName (Some ''a 1 b'') = ''a  b''
   \<and> has_double_space (normalizeName (Some ''a 1 b''))
   \<and> normalizeName (Some ''1 a'') = '' a''
   \<and> surrounding_space (normalizeName (Some ''1 a''))"
  by code_simp

subsection \<open>CSV writing and parsing\<close>

lemma scan_quoted:
  "dquote \<notin> set v \<Longrightarrow> csv_scan res cur True (v @ rest) = csv_scan res (cur @ v) True rest"
  by (induction v arbitrary: cur) auto

lemma scan_unquoted:
  "dquote \<notin> set v \<Longrightarrow> comma \<notin> set v \<Longrightarrow>
     csv_scan res cur False (v @ rest) = csv_scan res (cur @ v) False rest"
  by (induction v arbitrary: cur) auto

lemma no_quote_doubling:
  "dquote \<notin> set v \<Longrightarrow> concat (map (\<lambda>c. if c = dquote then [dquote, dquote] else [c]) v) = v"
  by (induction v) auto

lemma scan_cell:
  assumes "dquote \<notin> set v"
  shows "csv_scan res cur False (csv_cell v @ rest) = csv_scan res (cur @ v) False rest"
proof (cases "comma \<in> set v")
  case True
  then have c: "csv_cell v = dquote # v @ [dquote]"
    using assms by (simp add: csv_cell_def no_quote_doubling)
  have "csv_scan res cur False (csv_cell v @ rest) = csv_scan res cur True (v @ dquote # rest)"
    unfolding c by simp
  also have "\<dots> = csv_scan res (cur @ v) True (dquote # rest)"
    by (rule scan_quoted[OF assms])
  also have "\<dots> = csv_scan res (cur @ v) False rest" by simp
  finally show ?thesis .
next
  case False
  then have "csv_cell v = v" using assms by (simp add: csv_cell_def)
  then show ?thesis using scan_unquoted[OF assms False] by simp
qed

lemma scan_line:
  "vs \<noteq> [] \<Longrightarrow> \<forall>v\<in>set vs. dquote \<notin> set v \<Longrightarrow>
     csv_scan res [] False (join [comma] (map csv_cell vs)) = res @ vs"
proof (induction vs arbitrary: res)
  case Nil
  then show ?case by simp
next
  case (Cons v vs)
  have q: "dquote \<notin> set v" using Cons.prems(2) by simp
  show ?case
  proof (cases vs)
    case Nil
    have "csv_scan res [] False (csv_cell v @ []) = csv_scan res ([] @ v) False []"
      by (rule scan_cell[OF q])
    then show ?thesis using Nil by simp
  next
    case (Cons w ws)
    have j: "join [comma] (map csv_cell (v # vs)) = csv_cell v @ comma # join [comma] (map csv_cell vs)"
      using Cons by simp
    have "csv_scan res [] False (csv_cell v @ comma # join [comma] (map csv_cell vs))
            = csv_scan res ([] @ v) False (comma # join [comma] (map csv_cell vs))"
      by (rule scan_cell[OF q])
    also have "\<dots> = csv_scan (res @ [v]) [] False (join [comma] (map csv_cell vs))"
      by (simp add: comma_def dquote_def)
    also have "\<dots> = (res @ [v]) @ vs"
      using Cons.IH[of "res @ [v]"] Cons.prems(2) Cons by simp
    finally show ?thesis unfolding j by simp
  qed
qed

lemma strip_quotes_plain: "dquote \<notin> set v \<Longrightarrow> strip_quotes v = v"
proof (cases v)
  case Nil
  then show ?thesis by (simp add: strip_quotes_def)
next
  case (Cons a x)
  assume "dquote \<notin> set v"
  then have "a \<noteq> dquote" "last v \<noteq> dquote" using Cons last_in_set[of v] by auto
  then show ?thesis using Cons by (simp add: strip_quotes_def)
qed

lemma parseCSVLine_cells:
  assumes "vs \<noteq> []" and "\<forall>v\<in>set vs. dquote \<notin> set v \<and> trim v = v"
  shows "parseCSVLine (join [comma] (map csv_cell vs)) = vs"
proof -
  have "csv_scan [] [] False (join [comma] (map csv_cell vs)) = vs"
    using scan_line[OF assms(1), of "[]"] assms(2) by simp
  then have "parseCSVLine (join [comma] (map csv_cell vs)) = map (\<lambda>s. trim (strip_quotes s)) vs"
    by (simp add: parseCSVLine_def)
  also have "\<dots> = map (\<lambda>s. s) vs"
    using assms(2) by (intro map_cong refl) (simp add: strip_quotes_plain)
  finally show ?thesis by simp
qed

lemma split_lines_single: "newline \<notin> set l \<Longrightarrow> split_lines l = [l]"
  by (induction l) auto

lemma split_lines_append:
  "newline \<notin> set l \<Longrightarrow> split_lines (l @ newline # rest) = l # split_lines rest"
  by (induction l) auto

lemma split_lines_join:
  "ls \<noteq> [] \<Longrightarrow> \<forall>l\<in>set ls. newline \<notin> set l \<Longrightarrow> split_lines (join [newline] ls) = ls"
proof (induction ls)
  case Nil
  then show ?case by simp
next
  case (Cons l ls)
  show ?case
  proof (cases ls)
    case Nil
    then show ?thesis using Cons.prems by (simp add: split_lines_single)
  next
    case (Cons m ms)
    then have "join [newline] (l # ls) = l @ newline # join [newline] ls" by simp
    then show ?thesis using Cons.IH Cons.prems Cons by (simp add: split_lines_append)
  qed
qed

lemma set_join:
  "set (join sep ls) \<subseteq> set sep \<union> \<Union> (set ` set ls)"
  by (induction sep ls rule: join.induct) auto

lemma fill_row_columns:
  assumes "\<forall>k\<in>set keys. trim k = k \<and> k \<noteq> ''__proto__''"
  shows "fill_row r (pre @ map f keys) (length pre) keys
           = (\<lambda>k. if k \<in> set keys then Some (trim (f k)) else r k)"
  using assms
proof (induction keys arbitrary: r pre)
  case Nil
  show ?case by simp
next
  case (Cons k ks)
  have v: "value_at (pre @ map f (k # ks)) (length pre) = trim (f k)"
    by (simp add: value_at_def nth_append)
  have s: "set_prop r (trim k) (trim (f k)) = r(k \<mapsto> trim (f k))"
    using Cons.prems by (simp add: set_prop_def)
  have "fill_row r (pre @ map f (k # ks)) (length pre) (k # ks)
          = fill_row (r(k \<mapsto> trim (f k))) ((pre @ [f k]) @ map f ks) (length (pre @ [f k])) ks"
    using v s by simp
  also have "\<dots> = (\<lambda>x. if x \<in> set ks then Some (trim (f x)) else (r(k \<mapsto> trim (f k))) x)"
    using Cons.prems by (intro Cons.IH) simp_all
  also have "\<dots> = (\<lambda>x. if x \<in> set (k # ks) then Some (trim (f x)) else r x)"
    by (auto simp: fun_eq_iff)
  finally show ?case .
qed

lemma trim_self: "s \<noteq> [] \<Longrightarrow> \<not> is_space (hd s) \<Longrightarrow> \<not> is_space (last s) \<Longrightarrow> trim s = s"
  by (simp add: trim_fixed surrounding_space_def)

lemma trim_ends: "trim v = v \<Longrightarrow> v \<noteq> [] \<Longrightarrow> \<not> is_space (hd v) \<and> \<not> is_space (last v)"
  by (simp add: trim_fixed surrounding_space_def)

lemma not_space_marks: "\<not> is_space comma" "\<not> is_space dquote"
  by (simp_all add: is_space_def comma_def dquote_def code_def)

lemma csv_cell_ends:
  assumes "trim v = v" and "v \<noteq> []"
  shows "csv_cell v \<noteq> [] \<and> \<not> is_space (hd (csv_cell v)) \<and> \<not> is_space (last (csv_cell v))"
proof (cases "comma \<in> set v \<or> dquote \<in> set v")
  case True
  then show ?thesis using not_space_marks by (simp add: csv_cell_def)
next
  case False
  then show ?thesis using trim_ends[OF assms] assms(2) by (simp add: csv_cell_def)
qed

lemma hd_join: "x \<noteq> [] \<Longrightarrow> join sep (x # xs) \<noteq> [] \<and> hd (join sep (x # xs)) = hd x"
  by (cases xs) simp_all

lemma last_join:
  "ls \<noteq> [] \<Longrightarrow> last ls \<noteq> [] \<Longrightarrow> join sep ls \<noteq> [] \<and> last (join sep ls) = last (last ls)"
  by (induction sep ls rule: join.induct) simp_all

lemma last_join_empty:
  "sep \<noteq> [] \<Longrightarrow> 2 \<le> length ls \<Longrightarrow> last ls = [] \<Longrightarrow>
     join sep ls \<noteq> [] \<and> last (join sep ls) = last sep"
proof (induction sep ls rule: join.induct)
  case (1 sep)
  then show ?case by simp
next
  case (2 sep x)
  then show ?case by simp
next
  case (3 sep x y ys)
  show ?case
  proof (cases ys)
    case Nil
    then have "y = []" using 3(4) by simp
    then show ?thesis using Nil 3(2) by simp
  next
    case (Cons z zs)
    then have "join sep (y # ys) \<noteq> [] \<and> last (join sep (y # ys)) = last sep"
      using 3 by simp
    then show ?thesis by simp
  qed
qed

lemma set_csv_cell: "set (csv_cell v) \<subseteq> insert dquote (set v)"
  by (auto simp: csv_cell_def split: if_splits)

lemma marks_not_newline: "comma \<noteq> newline" "dquote \<noteq> newline"
  by (simp_all add: comma_def dquote_def newline_def)

lemma row_line_no_newline:
  assumes "\<forall>c\<in>set columns. newline \<notin> set (field r c)"
  shows "newline \<notin> set (row_line columns r)"
proof
  assume "newline \<in> set (row_line columns r)"
  then have "newline \<in> set [comma] \<union> \<Union> (set ` set (map csv_cell (map (field r) columns)))"
    unfolding row_line_def using set_join by blast
  then obtain c where "c \<in> set columns" "newline \<in> set (csv_cell (field r c))"
    using marks_not_newline by auto
  then have "newline \<in> insert dquote (set (field r c))" using set_csv_cell by blast
  then show False using assms \<open>c \<in> set columns\<close> marks_not_newline by auto
qed

lemma row_line_last:
  assumes "columns \<noteq> []" and "\<forall>c\<in>set columns. trim (field r c) = field r c"
    and "2 \<le> length columns \<or> field r (hd columns) \<noteq> []"
  shows "row_line columns r \<noteq> [] \<and> \<not> is_space (last (row_line columns r))"
proof -
  let ?cells = "map csv_cell (map (field r) columns)"
  have ne: "?cells \<noteq> []" using assms(1) by simp
  have lc: "last ?cells = csv_cell (field r (last columns))"
    using assms(1) by (simp add: last_map)
  show ?thesis
  proof (cases "field r (last columns) = []")
    case True
    then have e: "last ?cells = []" using lc by (simp add: csv_cell_def)
    have "2 \<le> length columns"
    proof (rule ccontr)
      assume "\<not> 2 \<le> length columns"
      then obtain c where "columns = [c]" using assms(1)
        by (cases columns) (auto simp: Suc_le_eq)
      then show False using True assms(3) by simp
    qed
    then have "2 \<le> length ?cells" by simp
    from last_join_empty[OF _ this e, of "[comma]"] show ?thesis
      using not_space_marks by (simp add: row_line_def)
  next
    case False
    have t: "trim (field r (last columns)) = field r (last columns)"
      using assms(1,2) by simp
    from csv_cell_ends[OF t False] lc
    have "last ?cells \<noteq> []" "\<not> is_space (last (last ?cells))" by simp_all
    then show ?thesis using last_join[OF ne, of "[comma]"] by (simp add: row_line_def)
  qed
qed

lemma csv_cell_plain: "comma \<notin> set c \<Longrightarrow> dquote \<notin> set c \<Longrightarrow> csv_cell c = c"
  by (simp add: csv_cell_def)

lemma header_cells:
  "\<forall>c\<in>set columns. plain_column c \<Longrightarrow> map csv_cell columns = columns"
  by (induction columns) (simp_all add: plain_column_def plain_value_def csv_cell_plain)

lemma header_no_newline:
  assumes "\<forall>c\<in>set columns. plain_column c"
  shows "newline \<notin> set (join [comma] columns)"
proof
  assume "newline \<in> set (join [comma] columns)"
  then have "newline \<in> set [comma] \<union> \<Union> (set ` set columns)" using set_join by blast
  then show False using assms marks_not_newline by (auto simp: plain_column_def plain_value_def)
qed

lemma header_first:
  assumes "columns \<noteq> []" and "\<forall>c\<in>set columns. plain_column c"
    and "2 \<le> length columns \<or> hd columns \<noteq> []"
  shows "join [comma] columns \<noteq> [] \<and> \<not> is_space (hd (join [comma] columns))"
proof -
  obtain c cs where c: "columns = c # cs" using assms(1) by (cases columns) auto
  show ?thesis
  proof (cases "c = []")
    case True
    then obtain d ds where "cs = d # ds" using assms(3) c by (cases cs) auto
    then show ?thesis using c True not_space_marks by simp
  next
    case False
    have t: "trim c = c" using assms(2) c by (simp add: plain_column_def plain_value_def)
    from hd_join[OF False, of "[comma]" cs] trim_ends[OF t False] show ?thesis using c by simp
  qed
qed

lemma toCSV_lines:
  "data \<noteq> [] \<Longrightarrow> toCSV data columns = join [newline] (join [comma] columns # map (row_line columns) data)"
  by (simp add: toCSV_def row_line_def[abs_def] Let_def comp_def)

lemma content_trimmed:
  assumes d: "data \<noteq> []" and c: "columns \<noteq> []" "\<forall>c\<in>set columns. plain_column c"
    and v: "\<forall>r\<in>set data. \<forall>c\<in>set columns. plain_value (field r c)"
    and f: "2 \<le> length columns \<or> hd columns \<noteq> []"
    and l: "2 \<le> length columns \<or> field (last data) (hd columns) \<noteq> []"
  shows "trim (toCSV data columns) = toCSV data columns"
proof -
  let ?h = "join [comma] columns"
  let ?rows = "map (row_line columns) data"
  have h: "?h \<noteq> []" "\<not> is_space (hd ?h)" using header_first[OF c f] by simp_all
  have lr: "last (?h # ?rows) = row_line columns (last data)" using d by (simp add: last_map)
  have "\<forall>c\<in>set columns. trim (field (last data) c) = field (last data) c"
    using v d by (simp add: plain_value_def)
  from row_line_last[OF c(1) this l]
  have e: "last (?h # ?rows) \<noteq> []" "\<not> is_space (last (last (?h # ?rows)))" unfolding lr by simp_all
  have 1: "join [newline] (?h # ?rows) \<noteq> []" "hd (join [newline] (?h # ?rows)) = hd ?h"
    using hd_join[OF h(1), of "[newline]" ?rows] by simp_all
  have 2: "last (join [newline] (?h # ?rows)) = last (last (?h # ?rows))"
    using last_join[OF _ e(1), of "[newline]"] by simp
  show ?thesis unfolding toCSV_lines[OF d]
    by (rule trim_self) (use 1 2 h e in simp_all)
qed

lemma content_lines:
  assumes d: "data \<noteq> []" and c: "\<forall>c\<in>set columns. plain_column c"
    and v: "\<forall>r\<in>set data. \<forall>c\<in>set columns. plain_value (field r c)"
  shows "split_lines (toCSV data columns) = join [comma] columns # map (row_line columns) data"
proof -
  have "\<forall>l\<in>set (join [comma] columns # map (row_line columns) data). newline \<notin> set l"
    using header_no_newline[OF c] row_line_no_newline[of columns] v
    by (auto simp: plain_value_def)
  then show ?thesis unfolding toCSV_lines[OF d] by (intro split_lines_join) simp_all
qed

lemma parse_header:
  assumes "columns \<noteq> []" and "\<forall>c\<in>set columns. plain_column c"
  shows "parseCSVLine (join [comma] columns) = columns"
proof -
  have "\<forall>v\<in>set columns. dquote \<notin> set v \<and> trim v = v"
    using assms(2) by (simp add: plain_column_def plain_value_def)
  from parseCSVLine_cells[OF assms(1) this] show ?thesis
    unfolding header_cells[OF assms(2)] .
qed

lemma parse_row_line:
  assumes "columns \<noteq> []" and "\<forall>c\<in>set columns. plain_value (field r c)"
  shows "parseCSVLine (row_line columns r) = map (field r) columns"
proof -
  have "\<forall>v\<in>set (map (field r) columns). dquote \<notin> set v \<and> trim v = v"
    using assms(2) by (simp add: plain_value_def)
  moreover have "map (field r) columns \<noteq> []" using assms(1) by simp
  ultimately show ?thesis unfolding row_line_def by (intro parseCSVLine_cells)
qed

lemma fill_row_fields:
  assumes "\<forall>c\<in>set columns. plain_column c"
    and "\<forall>c\<in>set columns. plain_value (field r c)"
  shows "fill_row Map.empty (map (field r) columns) 0 columns
           = (\<lambda>k. if k \<in> set columns then Some (field r k) else None)"
proof -
  have k: "\<forall>k\<in>set columns. trim k = k \<and> k \<noteq> ''__proto__''"
    using assms(1) by (simp add: plain_column_def plain_value_def)
  have "fill_row Map.empty ([] @ map (field r) columns) (length ([] :: string list)) columns
          = (\<lambda>k. if k \<in> set columns then Some (trim (field r k)) else None)"
    by (rule fill_row_columns[OF k])
  also have "\<dots> = (\<lambda>k. if k \<in> set columns then Some (field r k) else None)"
    using assms(2) by (auto simp: plain_value_def fun_eq_iff)
  finally show ?thesis by simp
qed

lemma field_own_value: "own_or_not_inherited r c \<Longrightarrow> field r c = own_value r c"
  by (auto simp: own_or_not_inherited_def field_def own_value_def split: option.splits)

text \<open>
  Claim C3, amended. Take column names free of commas, quotes, line breaks and
  surrounding whitespace (and other than \<open>__proto__\<close>), and records whose values in these
  columns have no quote character, no line break and no whitespace at either end
  (commas are allowed), each column being a property of the record itself or a name
  under which a plain object inherits nothing. Let there be two columns or more, or one
  column with a non-empty name and a non-empty value in the last record. Then parsing
  what \<open>toCSV\<close> writes gives back, record by record, exactly these columns with their
  original values (an absent value as the empty string): a value containing a comma is
  quoted on output and unquoted on input.
\<close>

theorem csv_round_trip:
  assumes "columns \<noteq> []" and "\<forall>c\<in>set columns. plain_column c"
    and "\<forall>r\<in>set data. \<forall>c\<in>set columns. own_or_not_inherited r c"
    and "\<forall>r\<in>set data. \<forall>c\<in>set columns. plain_value (own_value r c)"
    and "2 \<le> length columns \<or>
         (hd columns \<noteq> [] \<and> (data = [] \<or> own_value (last data) (hd columns) \<noteq> []))"
  shows "parseCSV (toCSV data columns) = map (project columns) data"
proof (cases "data = []")
  case True
  then show ?thesis by (simp add: toCSV_def parseCSV_def trim_def trimStart_def trimEnd_def)
next
  case False
  let ?h = "join [comma] columns"
  have o: "\<forall>r\<in>set data. \<forall>c\<in>set columns. field r c = own_value r c"
    using assms(3) by (simp add: field_own_value)
  have v: "\<forall>r\<in>set data. \<forall>c\<in>set columns. plain_value (field r c)"
    using assms(4) o by simp
  have "hd columns \<in> set columns" "last data \<in> set data"
    using assms(1) False by simp_all
  then have ol: "field (last data) (hd columns) = own_value (last data) (hd columns)"
    using o by blast
  have f: "2 \<le> length columns \<or> hd columns \<noteq> []"
    and l: "2 \<le> length columns \<or> field (last data) (hd columns) \<noteq> []"
    using assms(5) False ol by auto
  have t: "trim (toCSV data columns) = toCSV data columns"
    by (rule content_trimmed[OF False assms(1,2) v f l])
  have s: "split_lines (toCSV data columns) = ?h # map (row_line columns) data"
    by (rule content_lines[OF False assms(2) v])
  have p: "map parseCSVLine (map (row_line columns) data) = map (\<lambda>r. map (field r) columns) data"
    using assms(1) v by (simp add: parse_row_line)
  have n: "filter (\<lambda>vs. length vs \<noteq> 0) (map (\<lambda>r. map (field r) columns) data)
             = map (\<lambda>r. map (field r) columns) data"
    using assms(1) by (simp add: filter_map comp_def)
  have "map (\<lambda>vs. fill_row Map.empty vs 0 columns) (map (\<lambda>r. map (field r) columns) data)
             = map (\<lambda>r k. if k \<in> set columns then Some (field r k) else None) data"
    using assms(2) v by (simp add: fill_row_fields)
  also have "\<dots> = map (project columns) data"
    using o by (simp add: project_def fun_eq_iff)
  finally have m: "map (\<lambda>vs. fill_row Map.empty vs 0 columns) (map (\<lambda>r. map (field r) columns) data)
             = map (project columns) data" .
  have "parseCSV (toCSV data columns)
          = map (\<lambda>vs. fill_row Map.empty vs 0 (parseCSVLine ?h))
              (filter (\<lambda>vs. length vs \<noteq> 0) (map parseCSVLine (map (row_line columns) data)))"
    using False unfolding parseCSV_def t s by (simp add: Let_def)
  also have "\<dots> = map (project columns) data"
    unfolding parse_header[OF assms(1,2)] p n m ..
  finally show ?thesis .
qed

theorem csv_round_trip_witness:
  "map (\<lambda>r. (r ''name'', r ''campuses'')) (parseCSV (toCSV report_rows report_columns))
     = [(Some ''Ada'', Some ''UNILAG, UI''), (Some ''Bo'', Some [])]
   \<and> toCSV report_rows report_columns
     = ''name,campuses'' @ [newline] @ ''Ada,'' @ [dquote] @ ''UNILAG, UI'' @ [dquote] @ [newline] @ ''Bo,''"
proof -
  have h1: "report_columns \<noteq> []" by (simp add: report_columns_def)
  have h2: "\<forall>c\<in>set report_columns. plain_column c" by code_simp
  have h3: "\<forall>r\<in>set report_rows. \<forall>c\<in>set report_columns. own_or_not_inherited r c" by code_simp
  have h4: "\<forall>r\<in>set report_rows. \<forall>c\<in>set report_columns. plain_value (own_value r c)" by code_simp
  have h5: "2 \<le> length report_columns \<or>
      (hd report_columns \<noteq> [] \<and> (report_rows = [] \<or> own_value (last report_rows) (hd report_columns) \<noteq> []))"
    by (simp add: report_columns_def)
  have p: "map (\<lambda>r. (r ''name'', r ''campuses'')) (map (project report_columns) report_rows)
     = [(Some ''Ada'', Some ''UNILAG, UI''), (Some ''Bo'', Some [])]"
    by code_simp
  have w: "toCSV report_rows report_columns
     = ''name,campuses'' @ [newline] @ ''Ada,'' @ [dquote] @ ''UNILAG, UI'' @ [dquote] @ [newline] @ ''Bo,''"
    by code_simp
  show ?thesis unfolding csv_round_trip[OF h1 h2 h3 h4 h5] using p w by (intro conjI)
qed

text \<open>
  The claim as written covers every record. \<open>parseCSV\<close> trims each value, and
  \<open>parseCSVLine\<close> drops every quote character it reads: the record with the name
  \<open>x\<close> preceded by a space and a note made of \<open>p\<close>, a quote and \<open>q\<close> comes back with the
  name \<open>x\<close> and the note \<open>pq\<close>. A record that has no property \<open>constructor\<close> of its own
  is written with the text of the inherited member in that column, and comes back with
  it. One column whose only value is empty is written as the header line alone, and
  parses to no record at all. A line break in a value is written as it is and parses as
  the end of a record, and a comma in a column name is written as it is and parses as
  the end of a name.
\<close>

theorem csv_round_trip_counterexample:
  "map (\<lambda>r. (r ''name'', r ''note''))
     (parseCSV (toCSV [map_of [(''name'', '' x''), (''note'', ''p'' @ [dquote] @ ''q'')]] [''name'', ''note'']))
     = [(Some ''x'', Some ''pq'')]
   \<and> toCSV [map_of [(''name'', '' x''), (''note'', ''p'' @ [dquote] @ ''q'')]] [''name'', ''note'']
     = ''name,note'' @ [newline] @ '' x,'' @ [dquote] @ ''p'' @ [dquote, dquote] @ ''q'' @ [dquote]
   \<and> map (\<lambda>r. (r ''name'', r ''constructor''))
     (parseCSV (toCSV [map_of [(''name'', ''Ada'')]] [''name'', ''constructor'']))
     = [(Some ''Ada'', Some ''function Object() { [native code] }'')]
   \<and> map_of [(''name'', ''Ada'')] ''constructor'' = None
   \<and> toCSV [map_of [(''name'', [])]] [''name''] = ''name'' @ [newline]
   \<and> parseCSV (toCSV [map_of [(''name'', [])]] [''name'']) = []
   \<and> map (\<lambda>r. (r ''n'', r ''note''))
     (parseCSV (toCSV [map_of [(''n'', ''1''), (''note'', ''a'' @ [newline] @ ''b'')]] [''n'', ''note'']))
     = [(Some ''1'', Some ''a''), (Some ''b'', Some [])]
   \<and> map (\<lambda>r. (r ''a,b'', r ''a'', r ''b''))
     (parseCSV (toCSV [map_of [(''a,b'', ''x'')]] [''a,b'']))
     = [(None, Some ''x'', Some [])]"
  by code_simp

end
